theory Spec2Isabelle
  imports Main "HOL-Library.Sublist"
begin

section \<open>Strings and the regular-expression fragment of the host patterns\<close>

text \<open>
  The DNS server of \<^verbatim>\<open>src/lib/dns/server.ts\<close> recognises user hosts with two
  regular expressions that are built, when the module is loaded, from the configured parent
  domain. Strings are lists of characters. The patterns are kept as the pattern strings the
  source writes; \<open>RegExp\<close> below reads such a string the way the JavaScript constructor
  does, for the syntax these patterns are made of: literal characters, identity escapes
  \<^verbatim>\<open>\c\<close> of syntax characters, \<^verbatim>\<open>.\<close>, character classes without ranges,
  \<^verbatim>\<open>*\<close> on a single-character atom, capture groups, \<^verbatim>\<open>^\<close> and \<^verbatim>\<open>$\<close>.
  A pattern outside this syntax is not given a meaning (\<open>None\<close>).
\<close>

definition backslash :: char where
  "backslash = CHR 0x5C"

text \<open>The characters of the class \<^verbatim>\<open>[.*+?^${}()|[\]\\]\<close>.\<close>

definition syntaxChars :: "char list" where
  "syntaxChars = ''.*+?^${}()|[]'' @ [backslash]"

text \<open>\<^verbatim>\<open>s.replace(/[.*+?^${}()|[\]\\]/g, '\\$&')\<close>: every syntax character gets a
  backslash in front of it, every other character is kept.\<close>

definition escapeStringForEmbeddingInRegex :: "string \<Rightarrow> string" where
  "escapeStringForEmbeddingInRegex s =
     concat (map (\<lambda>c. if c \<in> set syntaxChars then [backslash, c] else [c]) s)"

text \<open>\<^verbatim>\<open>s.split(':')[0]\<close>: the part of \<open>s\<close> before its first colon.\<close>

definition splitColon0 :: "string \<Rightarrow> string" where
  "splitColon0 s = takeWhile (\<lambda>c. c \<noteq> CHR '':'') s"

subsection \<open>Reading a pattern string\<close>

datatype token =
    TChar char
  | TDot
  | TStar
  | TBol
  | TEol
  | TOpen
  | TClose
  | TClass bool "char list"

text \<open>The members of a character class, up to its closing bracket, and the rest of the
  pattern.\<close>

fun classItems :: "string \<Rightarrow> (char list \<times> string) option" where
  "classItems [] = None"
| "classItems (c # cs) =
     (if c = CHR '']'' then Some ([], cs)
      else if c = backslash then
        (case cs of
           [] \<Rightarrow> None
         | d # ds \<Rightarrow>
             if d \<in> set syntaxChars then
               (case classItems ds of None \<Rightarrow> None | Some (xs, r) \<Rightarrow> Some (d # xs, r))
             else None)
      else if c = CHR ''-'' then None
      else (case classItems cs of None \<Rightarrow> None | Some (xs, r) \<Rightarrow> Some (c # xs, r)))"

definition consTok :: "token \<Rightarrow> token list option \<Rightarrow> token list option" where
  "consTok t r = map_option ((#) t) r"

function tokenize :: "string \<Rightarrow> token list option" where
  "tokenize [] = Some []"
| "tokenize (c # cs) =
     (if c = backslash then
        (case cs of
           [] \<Rightarrow> None
         | d # ds \<Rightarrow> if d \<in> set syntaxChars then consTok (TChar d) (tokenize ds) else None)
      else if c = CHR ''['' then
        (case cs of
           [] \<Rightarrow> None
         | d # ds \<Rightarrow>
             if d = CHR ''^'' then
               (case classItems ds of
                  None \<Rightarrow> None
                | Some (xs, r) \<Rightarrow> consTok (TClass True xs) (tokenize r))
             else
               (case classItems cs of
                  None \<Rightarrow> None
                | Some (xs, r) \<Rightarrow> consTok (TClass False xs) (tokenize r)))
      else if c = CHR ''.'' then consTok TDot (tokenize cs)
      else if c = CHR ''*'' then consTok TStar (tokenize cs)
      else if c = CHR ''^'' then consTok TBol (tokenize cs)
      else if c = CHR ''$'' then consTok TEol (tokenize cs)
      else if c = CHR ''('' then consTok TOpen (tokenize cs)
      else if c = CHR '')'' then consTok TClose (tokenize cs)
      else if c \<in> set syntaxChars then None
      else consTok (TChar c) (tokenize cs))"
  by pat_completeness auto
termination
proof -
  have shorter: "classItems cs = Some (xs, r) \<Longrightarrow> length r < length cs" for cs xs r
  proof (induction cs arbitrary: xs r rule: classItems.induct)
    case 1
    then show ?case by simp
  next
    case (2 c cs)
    then show ?case
      by (fastforce split: if_splits list.splits option.splits)
  qed
  show ?thesis
    by (relation "measure length") (auto dest: shorter simp del: classItems.simps)
qed

datatype atom =
    Chr char
  | AnyChar
  | Class bool "char list"

datatype node =
    Atom atom
  | Star atom
  | Bol
  | Eol
  | Group nat "node list"

type_synonym regex = "node list"

text \<open>The parser keeps a stack of the groups that are open, each with its number and the
  nodes read so far (last first); groups are numbered by their opening parenthesis, from 1,
  and frame 0 is the whole pattern.\<close>

fun parse :: "token list \<Rightarrow> nat \<Rightarrow> (nat \<times> node list) list \<Rightarrow> regex option" where
  "parse [] n st = (case st of [(g, ns)] \<Rightarrow> Some (rev ns) | _ \<Rightarrow> None)"
| "parse (t # ts) n st =
     (case st of
        [] \<Rightarrow> None
      | (g, ns) # st' \<Rightarrow>
          (case t of
             TChar c \<Rightarrow> parse ts n ((g, Atom (Chr c) # ns) # st')
           | TDot \<Rightarrow> parse ts n ((g, Atom AnyChar # ns) # st')
           | TClass neg cs \<Rightarrow> parse ts n ((g, Atom (Class neg cs) # ns) # st')
           | TBol \<Rightarrow> parse ts n ((g, Bol # ns) # st')
           | TEol \<Rightarrow> parse ts n ((g, Eol # ns) # st')
           | TStar \<Rightarrow>
               (case ns of
                  Atom a # ns' \<Rightarrow> parse ts n ((g, Star a # ns') # st')
                | _ \<Rightarrow> None)
           | TOpen \<Rightarrow> parse ts (Suc n) ((Suc n, []) # st)
           | TClose \<Rightarrow>
               (case st' of
                  [] \<Rightarrow> None
                | (g', ns') # st'' \<Rightarrow> parse ts n ((g', Group g (rev ns) # ns') # st''))))"

text \<open>\<^verbatim>\<open>new RegExp(pattern)\<close>.\<close>

definition RegExp :: "string \<Rightarrow> regex option" where
  "RegExp pattern =
     (case tokenize pattern of None \<Rightarrow> None | Some ts \<Rightarrow> parse ts 0 [(0, [])])"

subsection \<open>Matching\<close>

text \<open>
  A matcher state is the input already consumed (last character first), the input still
  to read, and the captures made so far (latest first). A node maps a state to the states it
  can end in, in the order a backtracking matcher tries them; \<^verbatim>\<open>*\<close> is greedy.
  Without flags, \<^verbatim>\<open>^\<close> holds only at the start of the input and \<^verbatim>\<open>$\<close> only at
  its end, and \<^verbatim>\<open>.\<close> matches every character but a line terminator.
\<close>

type_synonym mstate = "string \<times> string \<times> (nat \<times> string) list"

fun accepts :: "atom \<Rightarrow> char \<Rightarrow> bool" where
  "accepts (Chr c) x = (x = c)"
| "accepts AnyChar x = (x \<noteq> CHR 0x0A \<and> x \<noteq> CHR 0x0D)"
| "accepts (Class neg cs) x = ((x \<in> set cs) \<noteq> neg)"

fun matchStar :: "atom \<Rightarrow> string \<Rightarrow> string \<Rightarrow> (nat \<times> string) list \<Rightarrow> mstate list" where
  "matchStar at b [] k = [(b, [], k)]"
| "matchStar at b (x # xs) k =
     (if accepts at x then matchStar at (x # b) xs k @ [(b, x # xs, k)]
      else [(b, x # xs, k)])"

fun matchNode :: "node \<Rightarrow> mstate \<Rightarrow> mstate list"
  and matchSeq :: "node list \<Rightarrow> mstate \<Rightarrow> mstate list" where
  "matchNode (Atom at) (b, a, k) =
     (case a of [] \<Rightarrow> [] | x # xs \<Rightarrow> if accepts at x then [(x # b, xs, k)] else [])"
| "matchNode (Star at) (b, a, k) = matchStar at b a k"
| "matchNode Bol (b, a, k) = (if b = [] then [(b, a, k)] else [])"
| "matchNode Eol (b, a, k) = (if a = [] then [(b, a, k)] else [])"
| "matchNode (Group g ns) (b, a, k) =
     map (\<lambda>(b', a', k'). (b', a', (g, rev (take (length b' - length b) b')) # k'))
       (matchSeq ns (b, a, k))"
| "matchSeq [] s = [s]"
| "matchSeq (n # ns) s = concat (map (matchSeq ns) (matchNode n s))"

text \<open>\<^verbatim>\<open>exec\<close> of a regular expression without flags: the first match, tried from
  every start position from the left.\<close>

fun execFrom :: "regex \<Rightarrow> string \<Rightarrow> string \<Rightarrow> mstate option" where
  "execFrom rx b [] = (case matchSeq rx (b, [], []) of [] \<Rightarrow> None | s # _ \<Rightarrow> Some s)"
| "execFrom rx b (x # xs) =
     (case matchSeq rx (b, x # xs, []) of
        [] \<Rightarrow> execFrom rx (x # b) xs
      | s # _ \<Rightarrow> Some s)"

text \<open>\<^verbatim>\<open>name.match(rx)?.[1]\<close>: the first capture group of the match, \<open>None\<close> for
  \<^verbatim>\<open>undefined\<close> (no match, or a group that took no part in it).\<close>

definition matchGroup1 :: "string \<Rightarrow> regex \<Rightarrow> string option" where
  "matchGroup1 name rx =
     (case execFrom rx [] name of None \<Rightarrow> None | Some (b, a, k) \<Rightarrow> map_of k 1)"

subsection \<open>The two host patterns\<close>

definition txtPattern :: "string \<Rightarrow> string" where
  "txtPattern parent =
     ''^_weird'' @ [backslash] @ ''.([^'' @ [backslash] @ ''.]*)'' @ [backslash] @ ''.''
       @ escapeStringForEmbeddingInRegex (splitColon0 parent) @ ''$''"

definition aPattern :: "string \<Rightarrow> string" where
  "aPattern parent =
     ''^([^'' @ [backslash] @ ''.]*)'' @ [backslash] @ ''.''
       @ escapeStringForEmbeddingInRegex (splitColon0 parent) @ ''$''"

definition WEIRD_HOST_TXT_RECORD_REGEX :: "string \<Rightarrow> regex option" where
  "WEIRD_HOST_TXT_RECORD_REGEX parent = RegExp (txtPattern parent)"

definition WEIRD_HOST_A_RECORD_REGEX :: "string \<Rightarrow> regex option" where
  "WEIRD_HOST_A_RECORD_REGEX parent = RegExp (aPattern parent)"

subsection \<open>What the host patterns compile to\<close>

text \<open>The regular expressions that \<open>RegExp\<close> returns for the two pattern strings, for a
  parent domain \<open>host\<close> (lemmas \<open>RegExp_txtPattern\<close> and \<open>RegExp_aPattern\<close> below),
  and the function on names that they compute (\<open>matchGroup1_txtAst\<close>,
  \<open>matchGroup1_aAst\<close>).\<close>

definition lit :: "char \<Rightarrow> node" where
  "lit c = Atom (Chr c)"

definition userLabel :: node where
  "userLabel = Group 1 [Star (Class True ''.'')]"

definition txtAst :: "string \<Rightarrow> regex" where
  "txtAst host = Bol # map lit ''_weird.'' @ [userLabel, lit CHR ''.''] @ map lit host @ [Eol]"

definition aAst :: "string \<Rightarrow> regex" where
  "aAst host = Bol # [userLabel, lit CHR ''.''] @ map lit host @ [Eol]"

definition labelBefore :: "string \<Rightarrow> string \<Rightarrow> string option" where
  "labelBefore host a =
     (if dropWhile (\<lambda>c. c \<noteq> CHR ''.'') a = CHR ''.'' # host
      then Some (takeWhile (\<lambda>c. c \<noteq> CHR ''.'') a) else None)"

section \<open>The DNS server\<close>

subsection \<open>Questions, answers and the packets of a request\<close>

datatype rtype = A | AAAA | CNAME | MX | NS | PTR | SOA | SRV | TXT

text \<open>The data of an answer: a string (a public key, an IP address, a server address), or
  the list of chunks that the resolver of \<^verbatim>\<open>node:dns\<close> returns for one TXT record.\<close>

datatype AnyRecord = Str string | Chunks "string list"

record question =
  qname :: string
  qtype :: rtype

record answer =
  name :: string
  type :: rtype
  data :: AnyRecord
  ttl :: nat

record packet =
  questions :: "question list"
  answers :: "answer list"

text \<open>Modelled from the spec: \<^verbatim>\<open>res.answer(answers)\<close> is a method of the DNS library,
  whose code is not part of the repository; the response it belongs to holds the accumulated
  answer sequence, and a stage appends its answers to it.\<close>

definition answer :: "packet \<Rightarrow> answer list \<Rightarrow> packet" where
  "answer res as = res\<lparr>answers := answers res @ as\<rparr>"

subsection \<open>Promises\<close>

text \<open>
  Each question is resolved inside \<^verbatim>\<open>new Promise((returnAnswers) => ...)\<close>. The model
  of an executor gives the values it passes to \<^verbatim>\<open>returnAnswers\<close>, in order: the promise
  is resolved by the first call, later calls have no effect, and with no call the promise
  stays pending for ever. The executor of the registry stage is an \<^verbatim>\<open>async\<close> function,
  so a rejected \<^verbatim>\<open>await\<close> inside it rejects the promise of that function, which nobody
  reads, and \<^verbatim>\<open>returnAnswers\<close> is never called.
\<close>

datatype 'a promise = Resolved 'a | Pending

definition settle :: "'a list \<Rightarrow> 'a promise" where
  "settle calls = (case calls of [] \<Rightarrow> Pending | v # _ \<Rightarrow> Resolved v)"

text \<open>\<^verbatim>\<open>Promise.all\<close> of promises that never reject: the values in the order of the
  promises, once every one of them is resolved.\<close>

fun promiseAll :: "'a promise list \<Rightarrow> 'a list promise" where
  "promiseAll [] = Resolved []"
| "promiseAll (p # ps) =
     (case p of
        Pending \<Rightarrow> Pending
      | Resolved v \<Rightarrow>
          (case promiseAll ps of Pending \<Rightarrow> Pending | Resolved vs \<Rightarrow> Resolved (v # vs)))"

text \<open>What a middleware did with a request: it called \<^verbatim>\<open>next()\<close>, it returned without
  calling it, or it never got past an \<^verbatim>\<open>await\<close>; each with the response as it left it.\<close>

datatype outcome = Next packet | Return packet | Hang packet

fun response :: "outcome \<Rightarrow> packet" where
  "response (Next res) = res"
| "response (Return res) = res"
| "response (Hang res) = res"

subsection \<open>The registry\<close>

definition REDIS_USER_PREFIX :: string where
  "REDIS_USER_PREFIX = ''weird:users:''"

text \<open>The Redis client: \<^verbatim>\<open>get\<close> gives the string stored under a key or \<^verbatim>\<open>null\<close>,
  \<^verbatim>\<open>exists\<close> the number of the given keys that exist; either promise may be rejected.\<close>

datatype redisError = RedisError

record redisClient =
  redis_get :: "string \<Rightarrow> redisError + string option"
  redis_exists :: "string \<Rightarrow> redisError + nat"

datatype redisCall = Get string | Exists string

subsection \<open>The constants of the module\<close>

text \<open>The regular expressions are built when the module is loaded, where a pattern that
  \<^verbatim>\<open>new RegExp\<close> refuses would throw. \<open>DNS_PORT\<close> is the number that
  \<^verbatim>\<open>parseInt(env.DNS_PORT || '53')\<close> returns.\<close>

record module =
  txtRegex :: regex
  aRegex :: regex
  DNS_PORT :: nat

definition loadModule :: "string \<Rightarrow> nat \<Rightarrow> module option" where
  "loadModule PUBLIC_USER_DOMAIN_PARENT port =
     (case WEIRD_HOST_TXT_RECORD_REGEX PUBLIC_USER_DOMAIN_PARENT of
        None \<Rightarrow> None
      | Some t \<Rightarrow>
          (case WEIRD_HOST_A_RECORD_REGEX PUBLIC_USER_DOMAIN_PARENT of
             None \<Rightarrow> None
           | Some a \<Rightarrow> Some \<lparr>txtRegex = t, aRegex = a, DNS_PORT = port\<rparr>))"

text \<open>The self-IP set: the name servers of the app domain, or the loopback address when
  they cannot be resolved.\<close>

datatype dnsError = DnsError

definition selfIps :: "dnsError + string list \<Rightarrow> string list" where
  "selfIps resolveNs = (case resolveNs of Inl err \<Rightarrow> [''127.0.0.1''] | Inr addrs \<Rightarrow> addrs)"

subsection \<open>The stage that resolves records for registered users\<close>

text \<open>The executor of one question: the values it passes to \<^verbatim>\<open>returnAnswers\<close>
  (\<open>None\<close> for \<^verbatim>\<open>null\<close>) and the calls it makes to the registry. An empty string is
  falsy, as are \<^verbatim>\<open>undefined\<close>, \<^verbatim>\<open>null\<close> and \<open>0\<close>.\<close>

definition resolveUser ::
  "module \<Rightarrow> redisClient \<Rightarrow> string list \<Rightarrow> question \<Rightarrow> answer list option list \<times> redisCall list"
where
  "resolveUser m redis ips q =
     (case qtype q of
        TXT \<Rightarrow>
          (case matchGroup1 (qname q) (txtRegex m) of
             None \<Rightarrow> ([None], [])
           | Some txtUsername \<Rightarrow>
               if txtUsername = [] then ([None], [])
               else
                 (case redis_get redis (REDIS_USER_PREFIX @ txtUsername) of
                    Inl err \<Rightarrow> ([], [Get (REDIS_USER_PREFIX @ txtUsername)])
                  | Inr None \<Rightarrow> ([None], [Get (REDIS_USER_PREFIX @ txtUsername)])
                  | Inr (Some pubkey) \<Rightarrow>
                      if pubkey = [] then ([None], [Get (REDIS_USER_PREFIX @ txtUsername)])
                      else
                        ([Some [\<lparr>name = qname q, type = qtype q, data = Str pubkey, ttl = 0\<rparr>]],
                         [Get (REDIS_USER_PREFIX @ txtUsername)])))
      | A \<Rightarrow>
          (case matchGroup1 (qname q) (aRegex m) of
             None \<Rightarrow> ([None], [])
           | Some aUsername \<Rightarrow>
               if aUsername = [] then ([None], [])
               else
                 (case redis_exists redis (REDIS_USER_PREFIX @ aUsername) of
                    Inl err \<Rightarrow> ([], [Exists (REDIS_USER_PREFIX @ aUsername)])
                  | Inr exists \<Rightarrow>
                      if exists = 0 then ([None], [Exists (REDIS_USER_PREFIX @ aUsername)])
                      else
                        ([Some (map (\<lambda>ip. \<lparr>name = qname q, type = qtype q, data = Str ip,
                                             ttl = 300\<rparr>) ips)],
                         [Exists (REDIS_USER_PREFIX @ aUsername)])))
      | _ \<Rightarrow> ([None], []))"

text \<open>\<^verbatim>\<open>results.filter((x) => !!x).map(...).flat()\<close>: \<^verbatim>\<open>null\<close> is dropped, an
  array is kept even when it is empty, and the arrays are concatenated.\<close>

definition flatAnswers :: "answer list option list \<Rightarrow> answer list" where
  "flatAnswers results =
     concat (map (\<lambda>x. case x of None \<Rightarrow> [] | Some as \<Rightarrow> as) (filter (\<lambda>x. x \<noteq> None) results))"

definition registryStage ::
  "module \<Rightarrow> redisClient \<Rightarrow> string list \<Rightarrow> packet \<Rightarrow> packet \<Rightarrow> outcome \<times> redisCall list"
where
  "registryStage m redis ips req res =
     (if length (answers res) > 0 then (Next res, [])
      else
        (let rs = map (resolveUser m redis ips) (questions req);
             calls = concat (map snd rs)
         in case promiseAll (map (\<lambda>r. settle (fst r)) rs) of
              Pending \<Rightarrow> (Hang res, calls)
            | Resolved results \<Rightarrow>
                (let filtered = flatAnswers results
                 in (Next (if length filtered > 0 then answer res filtered else res), calls))))"

subsection \<open>The forwarding stage of development mode\<close>

text \<open>The decimal digits of a number, as \<^verbatim>\<open>`127.0.0.1:${DNS_PORT}`\<close> prints it.\<close>

definition digit :: "nat \<Rightarrow> char" where
  "digit d = ''0123456789'' ! d"

function showNat :: "nat \<Rightarrow> string" where
  "showNat n = (if n < 10 then [digit n] else showNat (n div 10) @ [digit (n mod 10)])"
  by pat_completeness auto
termination
  by (relation "measure id") auto

declare showNat.simps [simp del]

text \<open>The number that a string of decimal digits denotes, to say what \<open>showNat\<close>
  prints.\<close>

definition digitValue :: "char \<Rightarrow> nat" where
  "digitValue c = of_char c - 48"

definition decimalValue :: "string \<Rightarrow> nat" where
  "decimalValue s = foldl (\<lambda>acc c. 10 * acc + digitValue c) 0 s"

definition localServer :: "module \<Rightarrow> string" where
  "localServer m = ''127.0.0.1:'' @ showNat (DNS_PORT m)"

text \<open>The upstream resolver (\<^verbatim>\<open>resolver.resolve(name, type, callback)\<close> on the servers
  captured before the process made itself the resolver) calls back with an error or with
  the records.\<close>

type_synonym resolver = "string \<Rightarrow> rtype \<Rightarrow> dnsError + AnyRecord list"

text \<open>What the callback of \<^verbatim>\<open>resolver.resolve\<close> passes to \<^verbatim>\<open>returnAnswers\<close>, and
  the upstream call made: the cases TXT and A share this body.\<close>

definition resolveUpstream ::
  "resolver \<Rightarrow> question \<Rightarrow> answer list option list \<times> (string \<times> rtype) list"
where
  "resolveUpstream resolve q =
     (case resolve (qname q) (qtype q) of
        Inr ans \<Rightarrow>
          ([Some (map (\<lambda>answer. \<lparr>name = qname q, type = qtype q, data = answer,
                                   ttl = 300\<rparr>) ans)],
           [(qname q, qtype q)])
      | Inl err \<Rightarrow> ([Some []], [(qname q, qtype q)]))"

text \<open>The executor of one question. The case for NS has no \<^verbatim>\<open>break\<close>: control falls
  through to the default case, which calls \<^verbatim>\<open>returnAnswers(null)\<close> as well.\<close>

definition forwardQuestion ::
  "module \<Rightarrow> resolver \<Rightarrow> question \<Rightarrow> answer list option list \<times> (string \<times> rtype) list"
where
  "forwardQuestion m resolve q =
     (case qtype q of
        TXT \<Rightarrow> resolveUpstream resolve q
      | A \<Rightarrow> resolveUpstream resolve q
      | NS \<Rightarrow>
          ([Some [\<lparr>name = qname q, type = qtype q, data = Str (localServer m), ttl = 300\<rparr>]]
             @ [None],
           [])
      | _ \<Rightarrow> ([None], []))"

definition forwardStage ::
  "module \<Rightarrow> resolver \<Rightarrow> packet \<Rightarrow> packet \<Rightarrow> outcome \<times> (string \<times> rtype) list"
where
  "forwardStage m resolve req res =
     (if length (answers res) > 0 then (Return res, [])
      else
        (let rs = map (forwardQuestion m resolve) (questions req);
             calls = concat (map snd rs)
         in case promiseAll (map (\<lambda>r. settle (fst r)) rs) of
              Pending \<Rightarrow> (Hang res, calls)
            | Resolved results \<Rightarrow> (Next (answer res (flatAnswers results)), calls)))"

subsection \<open>Example configurations\<close>

text \<open>The module loaded for the parent domain \<^verbatim>\<open>users.example.com\<close> and port 53, a registry
  that holds the given keys, a registry whose every operation fails, and upstream resolvers
  that know the given records or fail.\<close>

definition exampleModule :: module where
  "exampleModule =
     \<lparr>txtRegex = txtAst ''users.example.com'', aRegex = aAst ''users.example.com'',
      DNS_PORT = 53\<rparr>"

definition registryOf :: "(string \<times> string) list \<Rightarrow> redisClient" where
  "registryOf kvs =
     \<lparr>redis_get = (\<lambda>k. Inr (map_of kvs k)),
      redis_exists = (\<lambda>k. Inr (if map_of kvs k = None then 0 else 1))\<rparr>"

definition failingRedis :: redisClient where
  "failingRedis =
     \<lparr>redis_get = (\<lambda>k. Inl RedisError), redis_exists = (\<lambda>k. Inl RedisError)\<rparr>"

definition upstreamOf :: "((string \<times> rtype) \<times> AnyRecord list) list \<Rightarrow> resolver" where
  "upstreamOf records nm ty =
     (case map_of records (nm, ty) of None \<Rightarrow> Inl DnsError | Some rs \<Rightarrow> Inr rs)"

section \<open>Properties of the host patterns\<close>

lemma tokenize_syntax_escape:
  "c \<in> set syntaxChars \<Longrightarrow> tokenize (backslash # c # cs) = consTok (TChar c) (tokenize cs)"
  by simp

lemma tokenize_plain:
  "c \<notin> set syntaxChars \<Longrightarrow> tokenize (c # cs) = consTok (TChar c) (tokenize cs)"
  by (auto simp: syntaxChars_def)

lemma tokenize_escape:
  "tokenize (escapeStringForEmbeddingInRegex p @ rest)
     = map_option ((@) (map TChar p)) (tokenize rest)"
proof (induction p)
  case Nil
  show ?case by (simp add: escapeStringForEmbeddingInRegex_def option.map_ident)
next
  case (Cons c p)
  have step: "escapeStringForEmbeddingInRegex (c # p) @ rest
      = (if c \<in> set syntaxChars then [backslash, c] else [c])
          @ (escapeStringForEmbeddingInRegex p @ rest)"
    by (simp add: escapeStringForEmbeddingInRegex_def)
  show ?case
  proof (cases "c \<in> set syntaxChars")
    case True
    then show ?thesis
      using Cons.IH
      by (simp add: step tokenize_syntax_escape consTok_def option.map_comp comp_def
               del: tokenize.simps)
  next
    case False
    then show ?thesis
      using Cons.IH
      by (simp add: step tokenize_plain consTok_def option.map_comp comp_def
               del: tokenize.simps)
  qed
qed

lemma parse_chars:
  "parse (map TChar p @ ts) n ((g, ns) # st) = parse ts n ((g, rev (map lit p) @ ns) # st)"
  by (induction p arbitrary: ns) (simp_all add: lit_def)

lemma tokenize_txtPattern:
  "tokenize (txtPattern parent)
     = Some ([TBol] @ map TChar ''_weird.'' @ [TOpen, TClass True ''.'', TStar, TClose, TChar CHR ''.'']
          @ map TChar (splitColon0 parent) @ [TEol])"
  by (simp add: txtPattern_def tokenize_escape consTok_def backslash_def syntaxChars_def)

lemma tokenize_aPattern:
  "tokenize (aPattern parent)
     = Some ([TBol, TOpen, TClass True ''.'', TStar, TClose, TChar CHR ''.'']
          @ map TChar (splitColon0 parent) @ [TEol])"
  by (simp add: aPattern_def tokenize_escape consTok_def backslash_def syntaxChars_def)

lemma RegExp_txtPattern: "RegExp (txtPattern parent) = Some (txtAst (splitColon0 parent))"
  by (simp add: RegExp_def tokenize_txtPattern parse_chars txtAst_def userLabel_def lit_def)

lemma RegExp_aPattern: "RegExp (aPattern parent) = Some (aAst (splitColon0 parent))"
  by (simp add: RegExp_def tokenize_aPattern parse_chars aAst_def userLabel_def lit_def)

lemma matchSeq_lits:
  "matchSeq (map lit p @ ns) (b, a, k)
     = (if prefix p a then matchSeq ns (rev p @ b, drop (length p) a, k) else [])"
proof (induction p arbitrary: b a)
  case Nil
  show ?case by simp
next
  case (Cons c p)
  show ?case
  proof (cases a)
    case Nil
    then show ?thesis by (simp add: lit_def)
  next
    case (Cons x xs)
    then show ?thesis
      using Cons.IH [of "x # b" xs] by (auto simp: lit_def)
  qed
qed

lemma matchSeq_label:
  assumes "\<not> accepts at d"
  shows "concat (map (matchSeq (lit d # ns))
           (map (\<lambda>(b', a', k'). (b', a', (g, rev (take (length b' - length b0) b')) # k'))
              (matchStar at (rev p @ b0) a k)))
     = (case dropWhile (accepts at) a of
          [] \<Rightarrow> []
        | x # r \<Rightarrow>
            if x = d then
              matchSeq ns (d # rev (takeWhile (accepts at) a) @ rev p @ b0, r,
                (g, p @ takeWhile (accepts at) a) # k)
            else [])"
  (is "?L p a = ?R p a")
proof (induction a arbitrary: p)
  case Nil
  show ?case by (simp add: lit_def)
next
  case (Cons x xs)
  show ?case
  proof (cases "accepts at x")
    case True
    with assms have neq: "x \<noteq> d" by auto
    have "?L p (x # xs) = ?L (p @ [x]) xs"
      using True neq by (simp add: lit_def)
    also have "\<dots> = ?R (p @ [x]) xs"
      by (rule Cons.IH)
    also have "\<dots> = ?R p (x # xs)"
      using True by (simp cong: list.case_cong if_cong)
    finally show ?thesis .
  next
    case False
    then show ?thesis using assms by (auto simp: lit_def)
  qed
qed

lemma concat_matchSeq_Nil: "concat (map (matchSeq []) ss) = ss"
  by (induction ss) simp_all

lemma dropWhile_head: "dropWhile P a = x # r \<Longrightarrow> \<not> P x"
  using hd_dropWhile [of P a] by auto

lemma matchSeq_userLabel:
  "matchSeq (userLabel # lit CHR ''.'' # ns) (b, a, k)
     = (case dropWhile (\<lambda>c. c \<noteq> CHR ''.'') a of
          [] \<Rightarrow> []
        | x # r \<Rightarrow>
            matchSeq ns (CHR ''.'' # rev (takeWhile (\<lambda>c. c \<noteq> CHR ''.'') a) @ b, r,
              (1, takeWhile (\<lambda>c. c \<noteq> CHR ''.'') a) # k))"
proof -
  have acc: "accepts (Class True ''.'') = (\<lambda>c. c \<noteq> CHR ''.'')"
    by (auto simp: fun_eq_iff)
  have "\<not> accepts (Class True ''.'') CHR ''.''" by simp
  note label = matchSeq_label [OF this, of ns 1 b "[]" a k, unfolded acc]
  have "matchSeq (userLabel # lit CHR ''.'' # ns) (b, a, k)
      = concat (map (matchSeq (lit CHR ''.'' # ns))
          (map (\<lambda>(b', a', k'). (b', a', (1, rev (take (length b' - length b) b')) # k'))
             (matchStar (Class True ''.'') (rev [] @ b) a k)))"
    by (simp add: userLabel_def concat_matchSeq_Nil)
  also have "\<dots> = (case dropWhile (\<lambda>c. c \<noteq> CHR ''.'') a of
          [] \<Rightarrow> []
        | x # r \<Rightarrow>
            if x = CHR ''.'' then
              matchSeq ns (CHR ''.'' # rev (takeWhile (\<lambda>c. c \<noteq> CHR ''.'') a) @ rev [] @ b, r,
                (1, [] @ takeWhile (\<lambda>c. c \<noteq> CHR ''.'') a) # k)
            else [])"
    by (rule label)
  also have "\<dots> = (case dropWhile (\<lambda>c. c \<noteq> CHR ''.'') a of
          [] \<Rightarrow> []
        | x # r \<Rightarrow>
            matchSeq ns (CHR ''.'' # rev (takeWhile (\<lambda>c. c \<noteq> CHR ''.'') a) @ b, r,
              (1, takeWhile (\<lambda>c. c \<noteq> CHR ''.'') a) # k))"
  proof (cases "dropWhile (\<lambda>c. c \<noteq> CHR ''.'') a")
    case Nil
    then show ?thesis by (simp del: dropWhile_eq_Nil_conv)
  next
    case (Cons x r)
    then have "x = CHR ''.''"
      using dropWhile_head [of "\<lambda>c. c \<noteq> CHR ''.''" a x r] by simp
    with Cons show ?thesis by simp
  qed
  finally show ?thesis .
qed

lemma matchSeq_Bol: "b \<noteq> [] \<Longrightarrow> matchSeq (Bol # ns) (b, a, k) = []"
  by simp

lemma execFrom_Bol_later: "b \<noteq> [] \<Longrightarrow> execFrom (Bol # ns) b a = None"
  by (induction a arbitrary: b) simp_all

lemma execFrom_Bol:
  "execFrom (Bol # ns) [] a = (case matchSeq ns ([], a, []) of [] \<Rightarrow> None | s # _ \<Rightarrow> Some s)"
  by (cases a) (simp_all add: execFrom_Bol_later split: list.splits)

lemma matchSeq_host_end:
  "matchSeq (map lit host @ [Eol]) (b, a, k) = (if a = host then [(rev host @ b, [], k)] else [])"
  by (auto simp: matchSeq_lits prefix_def)

lemma labelBefore_iff:
  "labelBefore host a = Some u \<longleftrightarrow> CHR ''.'' \<notin> set u \<and> a = u @ ''.'' @ host"
proof
  assume "labelBefore host a = Some u"
  then have d: "dropWhile (\<lambda>c. c \<noteq> CHR ''.'') a = CHR ''.'' # host"
    and u: "u = takeWhile (\<lambda>c. c \<noteq> CHR ''.'') a"
    by (auto simp: labelBefore_def split: if_splits)
  have "a = takeWhile (\<lambda>c. c \<noteq> CHR ''.'') a @ dropWhile (\<lambda>c. c \<noteq> CHR ''.'') a"
    by simp
  then have "a = u @ ''.'' @ host"
    using d u by simp
  moreover have "CHR ''.'' \<notin> set u"
    using u set_takeWhileD [of "CHR ''.''" "\<lambda>c. c \<noteq> CHR ''.''" a] by auto
  ultimately show "CHR ''.'' \<notin> set u \<and> a = u @ ''.'' @ host" by simp
next
  assume r: "CHR ''.'' \<notin> set u \<and> a = u @ ''.'' @ host"
  then have all: "\<And>x. x \<in> set u \<Longrightarrow> x \<noteq> CHR ''.''" by auto
  have "takeWhile (\<lambda>c. c \<noteq> CHR ''.'') (u @ CHR ''.'' # host) = u"
    using all by simp
  moreover have "dropWhile (\<lambda>c. c \<noteq> CHR ''.'') (u @ CHR ''.'' # host) = CHR ''.'' # host"
    using all by simp
  ultimately show "labelBefore host a = Some u"
    using r by (simp add: labelBefore_def)
qed

lemma matchSeq_label_host:
  "matchSeq (userLabel # lit CHR ''.'' # map lit host @ [Eol]) (b, a, [])
     = (case labelBefore host a of None \<Rightarrow> [] | Some u \<Rightarrow> [(rev a @ b, [], [(1, u)])])"
proof (cases "labelBefore host a")
  case None
  then have neq: "dropWhile (\<lambda>c. c \<noteq> CHR ''.'') a \<noteq> CHR ''.'' # host"
    by (simp add: labelBefore_def split: if_splits)
  show ?thesis
  proof (cases "dropWhile (\<lambda>c. c \<noteq> CHR ''.'') a")
    case Nil
    with None show ?thesis
      by (simp add: matchSeq_userLabel del: matchSeq.simps dropWhile_eq_Nil_conv)
  next
    case (Cons x r)
    then have "x = CHR ''.''"
      using dropWhile_head [of "\<lambda>c. c \<noteq> CHR ''.''" a x r] by simp
    with Cons neq have "r \<noteq> host" by simp
    with Cons None show ?thesis
      by (simp add: matchSeq_userLabel matchSeq_host_end del: matchSeq.simps)
  qed
next
  case (Some u)
  then have a: "a = u @ ''.'' @ host" and d: "CHR ''.'' \<notin> set u"
    by (simp_all add: labelBefore_iff)
  from Some have "dropWhile (\<lambda>c. c \<noteq> CHR ''.'') a = CHR ''.'' # host"
    and "takeWhile (\<lambda>c. c \<noteq> CHR ''.'') a = u"
    by (auto simp: labelBefore_def split: if_splits)
  then show ?thesis
    using Some a by (simp add: matchSeq_userLabel matchSeq_host_end del: matchSeq.simps)
qed

lemma matchGroup1_prefixed:
  "matchGroup1 nm (Bol # map lit p @ userLabel # lit CHR ''.'' # map lit host @ [Eol])
     = (if prefix p nm then labelBefore host (drop (length p) nm) else None)"
  by (simp add: matchGroup1_def execFrom_Bol matchSeq_lits matchSeq_label_host
           del: matchSeq.simps split: option.splits)

lemma matchGroup1_aAst: "matchGroup1 nm (aAst host) = labelBefore host nm"
  using matchGroup1_prefixed [of nm "[]" host] by (simp add: aAst_def)

lemma matchGroup1_txtAst:
  "matchGroup1 nm (txtAst host)
     = (if prefix ''_weird.'' nm then labelBefore host (drop 7 nm) else None)"
proof -
  have l: "length ''_weird.'' = 7" by simp
  show ?thesis
    using matchGroup1_prefixed [of nm "''_weird.''" host] unfolding l
    by (simp add: txtAst_def)
qed

lemma txt_match_iff:
  "matchGroup1 nm (txtAst host) = Some u
     \<longleftrightarrow> CHR ''.'' \<notin> set u \<and> nm = ''_weird.'' @ u @ ''.'' @ host"
proof -
  have "prefix ''_weird.'' nm \<and> drop 7 nm = r \<longleftrightarrow> nm = ''_weird.'' @ r" for r
    by (auto simp: prefix_def)
  then show ?thesis
    by (auto simp: matchGroup1_txtAst labelBefore_iff split: if_splits)
qed

lemma a_match_iff:
  "matchGroup1 nm (aAst host) = Some u \<longleftrightarrow> CHR ''.'' \<notin> set u \<and> nm = u @ ''.'' @ host"
  by (simp add: matchGroup1_aAst labelBefore_iff)

section \<open>Properties of the stages\<close>

subsection \<open>Loading the module, and the executor of one question\<close>

lemma loadModule_ok:
  "loadModule parent port
     = Some \<lparr>txtRegex = txtAst (splitColon0 parent), aRegex = aAst (splitColon0 parent),
         DNS_PORT = port\<rparr>"
  by (simp add: loadModule_def WEIRD_HOST_TXT_RECORD_REGEX_def WEIRD_HOST_A_RECORD_REGEX_def
        RegExp_txtPattern RegExp_aPattern)

lemma exampleModule_loaded: "loadModule ''users.example.com'' 53 = Some exampleModule"
  by (simp add: loadModule_ok exampleModule_def splitColon0_def)

lemma flatAnswers_append: "flatAnswers (xs @ ys) = flatAnswers xs @ flatAnswers ys"
  by (simp add: flatAnswers_def)

lemma flatAnswers_simps:
  "flatAnswers [] = []"
  "flatAnswers (None # xs) = flatAnswers xs"
  "flatAnswers (Some as # xs) = as @ flatAnswers xs"
  by (simp_all add: flatAnswers_def)

lemma txt_resolveUser:
  "resolveUser \<lparr>txtRegex = txtAst host, aRegex = ar, DNS_PORT = port\<rparr> redis ips
       \<lparr>qname = ''_weird.'' @ U @ ''.'' @ host, qtype = TXT\<rparr>
     = (if U = [] \<or> CHR ''.'' \<in> set U then ([None], [])
        else
          (case redis_get redis (REDIS_USER_PREFIX @ U) of
             Inl err \<Rightarrow> ([], [Get (REDIS_USER_PREFIX @ U)])
           | Inr None \<Rightarrow> ([None], [Get (REDIS_USER_PREFIX @ U)])
           | Inr (Some pubkey) \<Rightarrow>
               if pubkey = [] then ([None], [Get (REDIS_USER_PREFIX @ U)])
               else
                 ([Some [\<lparr>name = ''_weird.'' @ U @ ''.'' @ host, type = TXT, data = Str pubkey,
                           ttl = 0\<rparr>]],
                  [Get (REDIS_USER_PREFIX @ U)])))"
proof (cases "CHR ''.'' \<in> set U")
  case True
  have "matchGroup1 (''_weird.'' @ U @ ''.'' @ host) (txtAst host) \<noteq> Some u" for u
    using True by (auto simp: txt_match_iff)
  then have "matchGroup1 (''_weird.'' @ U @ ''.'' @ host) (txtAst host) = None"
    by (cases "matchGroup1 (''_weird.'' @ U @ ''.'' @ host) (txtAst host)") auto
  then show ?thesis
    using True by (simp add: resolveUser_def)
next
  case False
  then have "matchGroup1 (''_weird.'' @ U @ ''.'' @ host) (txtAst host) = Some U"
    by (simp add: txt_match_iff)
  then show ?thesis
    using False by (simp add: resolveUser_def split: sum.splits option.splits)
qed

lemma a_resolveUser:
  "resolveUser \<lparr>txtRegex = tr, aRegex = aAst host, DNS_PORT = port\<rparr> redis ips
       \<lparr>qname = U @ ''.'' @ host, qtype = A\<rparr>
     = (if U = [] \<or> CHR ''.'' \<in> set U then ([None], [])
        else
          (case redis_exists redis (REDIS_USER_PREFIX @ U) of
             Inl err \<Rightarrow> ([], [Exists (REDIS_USER_PREFIX @ U)])
           | Inr exists \<Rightarrow>
               if exists = 0 then ([None], [Exists (REDIS_USER_PREFIX @ U)])
               else
                 ([Some (map (\<lambda>ip. \<lparr>name = U @ ''.'' @ host, type = A, data = Str ip,
                                      ttl = 300\<rparr>) ips)],
                  [Exists (REDIS_USER_PREFIX @ U)])))"
proof (cases "CHR ''.'' \<in> set U")
  case True
  have "matchGroup1 (U @ ''.'' @ host) (aAst host) \<noteq> Some u" for u
    using True by (auto simp: a_match_iff)
  then have "matchGroup1 (U @ ''.'' @ host) (aAst host) = None"
    by (cases "matchGroup1 (U @ ''.'' @ host) (aAst host)") auto
  then show ?thesis
    using True by (simp add: resolveUser_def)
next
  case False
  then have "matchGroup1 (U @ ''.'' @ host) (aAst host) = Some U"
    by (simp add: a_match_iff)
  then show ?thesis
    using False by (simp add: resolveUser_def split: sum.splits option.splits)
qed

subsection \<open>The stages on a whole request\<close>

lemma settle_simps:
  "settle [] = Pending"
  "settle (v # vs) = Resolved v"
  by (simp_all add: settle_def)

lemma registryStage_single:
  assumes "answers res = []" and "questions req = [q]"
  shows "registryStage m redis ips req res
     = (case settle (fst (resolveUser m redis ips q)) of
          Pending \<Rightarrow> (Hang res, snd (resolveUser m redis ips q))
        | Resolved None \<Rightarrow> (Next res, snd (resolveUser m redis ips q))
        | Resolved (Some as) \<Rightarrow>
            (Next (res\<lparr>answers := as\<rparr>), snd (resolveUser m redis ips q)))"
  using assms
  by (simp add: registryStage_def flatAnswers_simps answer_def
           split: promise.splits option.splits)

lemma forwardQuestion_calls: "fst (forwardQuestion m resolve q) \<noteq> []"
  by (simp add: forwardQuestion_def resolveUpstream_def split: sum.splits rtype.splits)

lemma promiseAll_settle:
  "(\<And>x. x \<in> set xs \<Longrightarrow> f x \<noteq> [])
     \<Longrightarrow> promiseAll (map (\<lambda>x. settle (f x)) xs) = Resolved (map (\<lambda>x. hd (f x)) xs)"
proof (induction xs)
  case Nil
  show ?case by simp
next
  case (Cons x xs)
  then have "f x \<noteq> []" by simp
  then obtain v vs where "f x = v # vs" by (cases "f x") auto
  with Cons show ?case by (simp add: settle_simps)
qed

lemma forwardStage_answers:
  assumes "answers res = []"
  shows "forwardStage m resolve req res
     = (Next (res\<lparr>answers :=
                flatAnswers (map (\<lambda>q. hd (fst (forwardQuestion m resolve q))) (questions req))\<rparr>),
        concat (map (\<lambda>q. snd (forwardQuestion m resolve q)) (questions req)))"
proof -
  have "promiseAll (map (\<lambda>q. settle (fst (forwardQuestion m resolve q))) (questions req))
      = Resolved (map (\<lambda>q. hd (fst (forwardQuestion m resolve q))) (questions req))"
    by (rule promiseAll_settle) (rule forwardQuestion_calls)
  then show ?thesis
    using assms by (simp add: forwardStage_def answer_def comp_def)
qed

lemma forwardStage_around:
  assumes "answers res = []"
  shows "forwardStage m resolve (req\<lparr>questions := pre @ q # post\<rparr>) res
     = (Next (res\<lparr>answers :=
                answers (response (fst (forwardStage m resolve (req\<lparr>questions := pre\<rparr>) res)))
                @ flatAnswers [hd (fst (forwardQuestion m resolve q))]
                @ answers (response (fst (forwardStage m resolve (req\<lparr>questions := post\<rparr>) res)))\<rparr>),
        snd (forwardStage m resolve (req\<lparr>questions := pre\<rparr>) res)
        @ snd (forwardQuestion m resolve q)
        @ snd (forwardStage m resolve (req\<lparr>questions := post\<rparr>) res))"
  using flatAnswers_append
    [of "map (\<lambda>q. hd (fst (forwardQuestion m resolve q))) pre"
        "hd (fst (forwardQuestion m resolve q))
           # map (\<lambda>q. hd (fst (forwardQuestion m resolve q))) post"]
    flatAnswers_append
    [of "[hd (fst (forwardQuestion m resolve q))]"
        "map (\<lambda>q. hd (fst (forwardQuestion m resolve q))) post"]
  by (simp add: forwardStage_answers [OF assms])

lemma promiseAll_append:
  "promiseAll (ps @ qs)
     = (case promiseAll ps of
          Pending \<Rightarrow> Pending
        | Resolved vs \<Rightarrow>
            (case promiseAll qs of Pending \<Rightarrow> Pending | Resolved ws \<Rightarrow> Resolved (vs @ ws)))"
  by (induction ps) (simp_all split: promise.splits)

lemma flatAnswers_Cons:
  "flatAnswers (x # xs) = (case x of None \<Rightarrow> [] | Some as \<Rightarrow> as) @ flatAnswers xs"
  by (simp add: flatAnswers_def split: option.splits)

lemma registryStage_answers:
  assumes "answers res = []"
  shows "registryStage m redis ips req res
     = (case promiseAll (map (\<lambda>q. settle (fst (resolveUser m redis ips q))) (questions req)) of
          Pending \<Rightarrow> Hang res
        | Resolved vs \<Rightarrow> Next (res\<lparr>answers := flatAnswers vs\<rparr>),
        concat (map (\<lambda>q. snd (resolveUser m redis ips q)) (questions req)))"
  using assms
  by (simp add: registryStage_def answer_def comp_def Let_def split: promise.splits)

lemma registryStage_around:
  assumes "answers res = []"
  shows "registryStage m redis ips (req\<lparr>questions := pre @ q # post\<rparr>) res
     = (case fst (registryStage m redis ips (req\<lparr>questions := pre\<rparr>) res) of
          Next r1 \<Rightarrow>
            (case settle (fst (resolveUser m redis ips q)) of
               Resolved v \<Rightarrow>
                 (case fst (registryStage m redis ips (req\<lparr>questions := post\<rparr>) res) of
                    Next r2 \<Rightarrow> Next (res\<lparr>answers := answers r1 @ flatAnswers [v] @ answers r2\<rparr>)
                  | _ \<Rightarrow> Hang res)
             | Pending \<Rightarrow> Hang res)
        | _ \<Rightarrow> Hang res,
        snd (registryStage m redis ips (req\<lparr>questions := pre\<rparr>) res)
        @ snd (resolveUser m redis ips q)
        @ snd (registryStage m redis ips (req\<lparr>questions := post\<rparr>) res))"
  by (simp add: registryStage_answers [OF assms] promiseAll_append flatAnswers_append
        flatAnswers_Cons flatAnswers_simps split: promise.splits)

lemma registryStage_skip:
  assumes "resolveUser m redis ips q = ([None], cs)"
  shows "registryStage m redis ips (req\<lparr>questions := pre @ q # post\<rparr>) res
     = (fst (registryStage m redis ips (req\<lparr>questions := pre @ post\<rparr>) res),
        if answers res = [] then
          snd (registryStage m redis ips (req\<lparr>questions := pre\<rparr>) res) @ cs
          @ snd (registryStage m redis ips (req\<lparr>questions := post\<rparr>) res)
        else [])"
proof (cases "answers res = []")
  case True
  show ?thesis
    using assms
    by (simp add: registryStage_answers [OF True] promiseAll_append flatAnswers_append
          flatAnswers_simps settle_simps True split: promise.splits)
next
  case False
  then show ?thesis by (simp add: registryStage_def)
qed

lemma registryStage_skip_silent:
  assumes "resolveUser m redis ips q = ([None], [])"
  shows "registryStage m redis ips (req\<lparr>questions := pre @ q # post\<rparr>) res
     = registryStage m redis ips (req\<lparr>questions := pre @ post\<rparr>) res"
proof (cases "answers res = []")
  case True
  show ?thesis
    using assms
    by (simp add: registryStage_answers [OF True] promiseAll_append flatAnswers_append
          flatAnswers_simps settle_simps split: promise.splits)
next
  case False
  then show ?thesis by (simp add: registryStage_def)
qed

lemma registryStage_Nil:
  "answers res = [] \<Longrightarrow> questions req = []
     \<Longrightarrow> registryStage m redis ips req res = (Next res, [])"
  by (simp add: registryStage_answers flatAnswers_simps)

subsection \<open>The decimal numeral of the port\<close>

lemma digitValue_digit: "d < 10 \<Longrightarrow> digitValue (digit d) = d"
proof -
  assume "d < 10"
  then have "d = 0 \<or> d = 1 \<or> d = 2 \<or> d = 3 \<or> d = 4 \<or> d = 5 \<or> d = 6 \<or> d = 7 \<or> d = 8 \<or> d = 9"
    by arith
  then show ?thesis
    by (auto simp: digitValue_def digit_def)
qed

lemma digit_is_digit: "d < 10 \<Longrightarrow> digit d \<in> set ''0123456789''"
proof -
  assume "d < 10"
  then have "d = 0 \<or> d = 1 \<or> d = 2 \<or> d = 3 \<or> d = 4 \<or> d = 5 \<or> d = 6 \<or> d = 7 \<or> d = 8 \<or> d = 9"
    by arith
  then show ?thesis
    by (auto simp: digit_def)
qed

lemma digit_zero_iff: "d < 10 \<Longrightarrow> digit d = CHR ''0'' \<longleftrightarrow> d = 0"
proof -
  assume "d < 10"
  then have "d = 0 \<or> d = 1 \<or> d = 2 \<or> d = 3 \<or> d = 4 \<or> d = 5 \<or> d = 6 \<or> d = 7 \<or> d = 8 \<or> d = 9"
    by arith
  then show ?thesis
    by (auto simp: digit_def)
qed

lemma decimalValue_snoc: "decimalValue (s @ [c]) = 10 * decimalValue s + digitValue c"
  by (simp add: decimalValue_def)

lemma decimalValue_showNat: "decimalValue (showNat n) = n"
proof (induction n rule: showNat.induct)
  case (1 n)
  show ?case
  proof (cases "n < 10")
    case True
    then show ?thesis
      by (simp add: showNat.simps [of n] decimalValue_def digitValue_digit)
  next
    case False
    then have "decimalValue (showNat (n div 10)) = n div 10"
      using 1 by simp
    then show ?thesis
      using False
      by (simp add: showNat.simps [of n] decimalValue_snoc digitValue_digit)
  qed
qed

lemma showNat_digits: "set (showNat n) \<subseteq> set ''0123456789''"
proof (induction n rule: showNat.induct)
  case (1 n)
  show ?case
  proof (cases "n < 10")
    case True
    then show ?thesis
      using digit_is_digit [of n] by (simp add: showNat.simps [of n])
  next
    case False
    then have "set (showNat (n div 10)) \<subseteq> set ''0123456789''"
      using 1 by simp
    then show ?thesis
      using False digit_is_digit [of "n mod 10"]
      by (simp add: showNat.simps [of n])
  qed
qed

lemma showNat_nonempty: "showNat n \<noteq> []"
  by (simp add: showNat.simps [of n])

lemma showNat_no_leading_zero: "0 < n \<Longrightarrow> hd (showNat n) \<noteq> CHR ''0''"
proof (induction n rule: showNat.induct)
  case (1 n)
  show ?case
  proof (cases "n < 10")
    case True
    then show ?thesis
      using 1(2) by (simp add: showNat.simps [of n] digit_zero_iff)
  next
    case False
    then have "hd (showNat (n div 10)) \<noteq> CHR ''0''"
      using 1 by simp
    then show ?thesis
      using False showNat_nonempty [of "n div 10"]
      by (simp add: showNat.simps [of n])
  qed
qed

section \<open>The claims\<close>

text \<open>
  C1 (amended). For every non-empty username \<open>U\<close> that contains no dot and is registered
  with a non-empty proof value \<open>V\<close>, the dynamic-registry stage, run on a request that
  contains the question \<open>(_weird.U.<parent>, TXT)\<close> and on a response without answers,
  makes one registry lookup for the question and produces exactly one answer for it, with the
  name of the query, type TXT, data \<open>V\<close> and ttl 0. The answer stands between the answers
  to the questions before it (\<open>pre\<close>) and after it (\<open>post\<close>), whose lookups are taken
  to complete; with no other question it is the only answer.
\<close>

theorem txt_answer_for_registered_user:
  assumes "loadModule parent port = Some m"
    and "U \<noteq> []" and "CHR ''.'' \<notin> set U" and "V \<noteq> []"
    and "redis_get redis (REDIS_USER_PREFIX @ U) = Inr (Some V)"
    and "answers res = []"
    and "qname q = ''_weird.'' @ U @ ''.'' @ splitColon0 parent" and "qtype q = TXT"
    and "fst (registryStage m redis ips (req\<lparr>questions := pre\<rparr>) res) = Next r1"
    and "fst (registryStage m redis ips (req\<lparr>questions := post\<rparr>) res) = Next r2"
  shows "registryStage m redis ips (req\<lparr>questions := pre @ q # post\<rparr>) res
     = (Next (res\<lparr>answers :=
                answers r1 @ [\<lparr>name = qname q, type = TXT, data = Str V, ttl = 0\<rparr>]
                @ answers r2\<rparr>),
        snd (registryStage m redis ips (req\<lparr>questions := pre\<rparr>) res)
        @ [Get (REDIS_USER_PREFIX @ U)]
        @ snd (registryStage m redis ips (req\<lparr>questions := post\<rparr>) res))"
proof -
  have m: "m = \<lparr>txtRegex = txtAst (splitColon0 parent), aRegex = aAst (splitColon0 parent),
      DNS_PORT = port\<rparr>"
    using assms(1) by (simp add: loadModule_ok)
  have q: "q = \<lparr>qname = ''_weird.'' @ U @ ''.'' @ splitColon0 parent, qtype = TXT\<rparr>"
    using assms(7,8) by simp
  have "resolveUser m redis ips q
      = ([Some [\<lparr>name = qname q, type = TXT, data = Str V, ttl = 0\<rparr>]],
         [Get (REDIS_USER_PREFIX @ U)])"
    unfolding m q using assms(2-5) by (simp add: txt_resolveUser [simplified])
  then show ?thesis
    using assms(9,10)
    by (simp add: registryStage_around [OF assms(6)] settle_simps flatAnswers_simps)
qed

theorem txt_answer_for_registered_user_witness:
  "loadModule ''users.example.com'' 53 = Some exampleModule
   \<and> ''alice'' \<noteq> [] \<and> CHR ''.'' \<notin> set ''alice'' \<and> ''pk123'' \<noteq> []
   \<and> redis_get (registryOf [(''weird:users:alice'', ''pk123'')]) (REDIS_USER_PREFIX @ ''alice'')
       = Inr (Some ''pk123'')
   \<and> registryStage exampleModule (registryOf [(''weird:users:alice'', ''pk123'')]) [''127.0.0.1'']
         \<lparr>questions = [\<lparr>qname = ''_weird.alice.users.example.com'', qtype = TXT\<rparr>], answers = []\<rparr>
         \<lparr>questions = [], answers = []\<rparr>
       = (Next \<lparr>questions = [],
                answers = [\<lparr>name = ''_weird.alice.users.example.com'', type = TXT,
                            data = Str ''pk123'', ttl = 0\<rparr>]\<rparr>,
          [Get ''weird:users:alice''])"
proof -
  let ?redis = "registryOf [(''weird:users:alice'', ''pk123'')]"
  let ?q = "\<lparr>qname = ''_weird.alice.users.example.com'', qtype = TXT\<rparr>"
  let ?res = "\<lparr>questions = [], answers = []\<rparr>"
  have reg: "redis_get ?redis (REDIS_USER_PREFIX @ ''alice'') = Inr (Some ''pk123'')"
    by (simp add: registryOf_def REDIS_USER_PREFIX_def)
  have nm: "qname ?q = ''_weird.'' @ ''alice'' @ ''.'' @ splitColon0 ''users.example.com''"
    by (simp add: splitColon0_def)
  have none: "fst (registryStage exampleModule ?redis [''127.0.0.1''] (?res\<lparr>questions := []\<rparr>)
      ?res) = Next ?res"
    by (simp add: registryStage_Nil)
  have "registryStage exampleModule ?redis [''127.0.0.1''] (?res\<lparr>questions := [] @ ?q # []\<rparr>)
        ?res
      = (Next (?res\<lparr>answers :=
                answers ?res @ [\<lparr>name = qname ?q, type = TXT, data = Str ''pk123'', ttl = 0\<rparr>]
                @ answers ?res\<rparr>),
         snd (registryStage exampleModule ?redis [''127.0.0.1''] (?res\<lparr>questions := []\<rparr>) ?res)
         @ [Get (REDIS_USER_PREFIX @ ''alice'')]
         @ snd (registryStage exampleModule ?redis [''127.0.0.1''] (?res\<lparr>questions := []\<rparr>)
             ?res))"
    by (rule txt_answer_for_registered_user [OF exampleModule_loaded _ _ _ reg _ nm _ none none])
      simp_all
  then show ?thesis
    using reg by (simp add: exampleModule_loaded registryStage_Nil REDIS_USER_PREFIX_def)
qed

theorem txt_answer_unanswered_counterexample:
  "redis_get (registryOf [(''weird:users:john.doe'', ''pk123'')])
       (REDIS_USER_PREFIX @ ''john.doe'') = Inr (Some ''pk123'')
   \<and> redis_get (registryOf [(''weird:users:'', ''pk123'')]) (REDIS_USER_PREFIX @ [])
       = Inr (Some ''pk123'')
   \<and> redis_get (registryOf [(''weird:users:alice'', [])]) (REDIS_USER_PREFIX @ ''alice'')
       = Inr (Some [])
   \<and> loadModule ''users.example.com'' 53 = Some exampleModule
   \<and> registryStage exampleModule (registryOf [(''weird:users:john.doe'', ''pk123'')])
         [''192.0.2.1'']
         \<lparr>questions = [\<lparr>qname = ''_weird.john.doe.users.example.com'', qtype = TXT\<rparr>],
          answers = []\<rparr>
         \<lparr>questions = [], answers = []\<rparr>
       = (Next \<lparr>questions = [], answers = []\<rparr>, [])
   \<and> registryStage exampleModule (registryOf [(''weird:users:'', ''pk123'')])
         [''192.0.2.1'']
         \<lparr>questions = [\<lparr>qname = ''_weird..users.example.com'', qtype = TXT\<rparr>], answers = []\<rparr>
         \<lparr>questions = [], answers = []\<rparr>
       = (Next \<lparr>questions = [], answers = []\<rparr>, [])
   \<and> registryStage exampleModule (registryOf [(''weird:users:alice'', [])])
         [''192.0.2.1'']
         \<lparr>questions = [\<lparr>qname = ''_weird.alice.users.example.com'', qtype = TXT\<rparr>],
          answers = []\<rparr>
         \<lparr>questions = [], answers = []\<rparr>
       = (Next \<lparr>questions = [], answers = []\<rparr>, [Get ''weird:users:alice''])"
proof -
  have "resolveUser exampleModule (registryOf [(''weird:users:john.doe'', ''pk123'')])
          [''192.0.2.1''] \<lparr>qname = ''_weird.john.doe.users.example.com'', qtype = TXT\<rparr>
      = ([None], [])"
    using txt_resolveUser [where host = "''users.example.com''" and U = "''john.doe''"]
    by (simp add: exampleModule_def)
  moreover have "resolveUser exampleModule (registryOf [(''weird:users:'', ''pk123'')])
          [''192.0.2.1''] \<lparr>qname = ''_weird..users.example.com'', qtype = TXT\<rparr>
      = ([None], [])"
    using txt_resolveUser [where host = "''users.example.com''" and U = "[]"]
    by (simp add: exampleModule_def)
  moreover have "resolveUser exampleModule (registryOf [(''weird:users:alice'', [])])
          [''192.0.2.1''] \<lparr>qname = ''_weird.alice.users.example.com'', qtype = TXT\<rparr>
      = ([None], [Get ''weird:users:alice''])"
    using txt_resolveUser [where host = "''users.example.com''" and U = "''alice''"
        and redis = "registryOf [(''weird:users:alice'', [])]"]
    by (simp add: exampleModule_def registryOf_def REDIS_USER_PREFIX_def)
  ultimately show ?thesis
    by (simp add: exampleModule_loaded registryStage_single settle_simps registryOf_def
          REDIS_USER_PREFIX_def)
qed

text \<open>
  C2 (amended). For every non-empty registered username \<open>U\<close> that contains no dot, the
  dynamic-registry stage, run on a request that contains the question \<open>(U.<parent>, A)\<close>
  and on a response without answers, produces for the question one answer per element of
  the self-IP set, in its order, each with the name of the query, type A, the IP as data
  and ttl 300; the answers stand between those to the questions before it (\<open>pre\<close>) and
  after it (\<open>post\<close>), whose lookups are taken to complete. For every username that is not
  registered the question produces no answer: the stage ends as it does on the request
  without that question.
\<close>

theorem a_answers_for_registered_user:
  assumes "loadModule parent port = Some m"
    and "answers res = []"
    and "qname q = U @ ''.'' @ splitColon0 parent" and "qtype q = A"
  shows "(U \<noteq> [] \<and> CHR ''.'' \<notin> set U
          \<and> redis_exists redis (REDIS_USER_PREFIX @ U) = Inr n \<and> 0 < n
          \<and> fst (registryStage m redis ips (req\<lparr>questions := pre\<rparr>) res) = Next r1
          \<and> fst (registryStage m redis ips (req\<lparr>questions := post\<rparr>) res) = Next r2
        \<longrightarrow> registryStage m redis ips (req\<lparr>questions := pre @ q # post\<rparr>) res
            = (Next (res\<lparr>answers :=
                       answers r1
                       @ map (\<lambda>ip. \<lparr>name = qname q, type = A, data = Str ip, ttl = 300\<rparr>) ips
                       @ answers r2\<rparr>),
               snd (registryStage m redis ips (req\<lparr>questions := pre\<rparr>) res)
               @ [Exists (REDIS_USER_PREFIX @ U)]
               @ snd (registryStage m redis ips (req\<lparr>questions := post\<rparr>) res)))
    \<and> (redis_exists redis (REDIS_USER_PREFIX @ U) = Inr 0
        \<longrightarrow> fst (registryStage m redis ips (req\<lparr>questions := pre @ q # post\<rparr>) res)
            = fst (registryStage m redis ips (req\<lparr>questions := pre @ post\<rparr>) res))"
proof -
  have m: "m = \<lparr>txtRegex = txtAst (splitColon0 parent), aRegex = aAst (splitColon0 parent),
      DNS_PORT = port\<rparr>"
    using assms(1) by (simp add: loadModule_ok)
  have q: "q = \<lparr>qname = U @ ''.'' @ splitColon0 parent, qtype = A\<rparr>"
    using assms(3,4) by simp
  note user = a_resolveUser [of "txtAst (splitColon0 parent)" "splitColon0 parent" port redis ips U,
    folded m q]
  have yes: "registryStage m redis ips (req\<lparr>questions := pre @ q # post\<rparr>) res
      = (Next (res\<lparr>answers :=
                 answers r1
                 @ map (\<lambda>ip. \<lparr>name = qname q, type = A, data = Str ip, ttl = 300\<rparr>) ips
                 @ answers r2\<rparr>),
         snd (registryStage m redis ips (req\<lparr>questions := pre\<rparr>) res)
         @ [Exists (REDIS_USER_PREFIX @ U)]
         @ snd (registryStage m redis ips (req\<lparr>questions := post\<rparr>) res))"
    if "U \<noteq> []" and "CHR ''.'' \<notin> set U"
      and "redis_exists redis (REDIS_USER_PREFIX @ U) = Inr n" and "0 < n"
      and "fst (registryStage m redis ips (req\<lparr>questions := pre\<rparr>) res) = Next r1"
      and "fst (registryStage m redis ips (req\<lparr>questions := post\<rparr>) res) = Next r2"
  proof -
    have "resolveUser m redis ips q
        = ([Some (map (\<lambda>ip. \<lparr>name = qname q, type = A, data = Str ip, ttl = 300\<rparr>) ips)],
           [Exists (REDIS_USER_PREFIX @ U)])"
      using that(1-4) assms(3,4) by (simp add: user)
    then show ?thesis
      using that(5,6)
      by (simp add: registryStage_around [OF assms(2)] settle_simps flatAnswers_simps)
  qed
  have no: "fst (registryStage m redis ips (req\<lparr>questions := pre @ q # post\<rparr>) res)
      = fst (registryStage m redis ips (req\<lparr>questions := pre @ post\<rparr>) res)"
    if "redis_exists redis (REDIS_USER_PREFIX @ U) = Inr 0"
  proof -
    have "\<exists>cs. resolveUser m redis ips q = ([None], cs)"
      using that by (simp add: user)
    then obtain cs where "resolveUser m redis ips q = ([None], cs)" ..
    then show ?thesis by (simp add: registryStage_skip)
  qed
  show ?thesis
    using yes no by blast
qed

theorem a_answers_for_registered_user_witness:
  "loadModule ''users.example.com'' 53 = Some exampleModule
   \<and> ''bob'' \<noteq> [] \<and> CHR ''.'' \<notin> set ''bob''
   \<and> redis_exists (registryOf [(''weird:users:bob'', ''pk456'')]) (REDIS_USER_PREFIX @ ''bob'')
       = Inr 1
   \<and> redis_exists (registryOf []) (REDIS_USER_PREFIX @ ''bob'') = Inr 0
   \<and> registryStage exampleModule (registryOf [(''weird:users:bob'', ''pk456'')])
         [''192.0.2.1'', ''192.0.2.2'']
         \<lparr>questions = [\<lparr>qname = ''bob.users.example.com'', qtype = A\<rparr>], answers = []\<rparr>
         \<lparr>questions = [], answers = []\<rparr>
       = (Next \<lparr>questions = [],
                answers = [\<lparr>name = ''bob.users.example.com'', type = A, data = Str ''192.0.2.1'',
                            ttl = 300\<rparr>,
                           \<lparr>name = ''bob.users.example.com'', type = A, data = Str ''192.0.2.2'',
                            ttl = 300\<rparr>]\<rparr>,
          [Exists ''weird:users:bob''])
   \<and> fst (registryStage exampleModule (registryOf []) [''192.0.2.1'', ''192.0.2.2'']
         \<lparr>questions = [\<lparr>qname = ''bob.users.example.com'', qtype = A\<rparr>], answers = []\<rparr>
         \<lparr>questions = [], answers = []\<rparr>)
       = Next \<lparr>questions = [], answers = []\<rparr>"
proof -
  let ?q = "\<lparr>qname = ''bob.users.example.com'', qtype = A\<rparr>"
  let ?res = "\<lparr>questions = [], answers = []\<rparr>"
  let ?ips = "[''192.0.2.1'', ''192.0.2.2'']"
  have nm: "qname ?q = ''bob'' @ ''.'' @ splitColon0 ''users.example.com''"
    by (simp add: splitColon0_def)
  have yes: "redis_exists (registryOf [(''weird:users:bob'', ''pk456'')])
      (REDIS_USER_PREFIX @ ''bob'') = Inr 1"
    by (simp add: registryOf_def REDIS_USER_PREFIX_def)
  have no: "redis_exists (registryOf []) (REDIS_USER_PREFIX @ ''bob'') = Inr 0"
    by (simp add: registryOf_def)
  have 1: "registryStage exampleModule (registryOf [(''weird:users:bob'', ''pk456'')]) ?ips
        \<lparr>questions = [?q], answers = []\<rparr> ?res
      = (Next \<lparr>questions = [],
                answers = [\<lparr>name = ''bob.users.example.com'', type = A, data = Str ''192.0.2.1'',
                            ttl = 300\<rparr>,
                           \<lparr>name = ''bob.users.example.com'', type = A, data = Str ''192.0.2.2'',
                            ttl = 300\<rparr>]\<rparr>,
         [Exists ''weird:users:bob''])"
    using a_answers_for_registered_user
      [where res = ?res and req = ?res and q = ?q and U = "''bob''" and m = exampleModule
        and parent = "''users.example.com''" and port = 53 and n = 1
        and redis = "registryOf [(''weird:users:bob'', ''pk456'')]"
        and ips = ?ips and pre = "[]" and post = "[]" and ?r1.0 = ?res and ?r2.0 = ?res,
        OF exampleModule_loaded _ nm]
      yes
    by (simp add: registryStage_Nil REDIS_USER_PREFIX_def)
  have 2: "fst (registryStage exampleModule (registryOf []) ?ips
        \<lparr>questions = [?q], answers = []\<rparr> ?res) = Next ?res"
    using a_answers_for_registered_user
      [where res = ?res and req = ?res and q = ?q and U = "''bob''" and m = exampleModule
        and parent = "''users.example.com''" and port = 53
        and redis = "registryOf []"
        and ips = ?ips and pre = "[]" and post = "[]",
        OF exampleModule_loaded _ nm]
      no
    by (simp add: registryStage_Nil)
  show ?thesis
    using 1 2 yes no by (simp add: exampleModule_loaded)
qed

theorem a_answers_unanswered_counterexample:
  "redis_exists (registryOf [(''weird:users:john.doe'', ''pk123'')])
       (REDIS_USER_PREFIX @ ''john.doe'') = Inr 1
   \<and> redis_exists (registryOf [(''weird:users:'', ''pk123'')]) (REDIS_USER_PREFIX @ [])
       = Inr 1
   \<and> loadModule ''users.example.com'' 53 = Some exampleModule
   \<and> registryStage exampleModule (registryOf [(''weird:users:john.doe'', ''pk123'')])
         [''192.0.2.1'']
         \<lparr>questions = [\<lparr>qname = ''john.doe.users.example.com'', qtype = A\<rparr>], answers = []\<rparr>
         \<lparr>questions = [], answers = []\<rparr>
       = (Next \<lparr>questions = [], answers = []\<rparr>, [])
   \<and> registryStage exampleModule (registryOf [(''weird:users:'', ''pk123'')])
         [''192.0.2.1'']
         \<lparr>questions = [\<lparr>qname = ''.users.example.com'', qtype = A\<rparr>], answers = []\<rparr>
         \<lparr>questions = [], answers = []\<rparr>
       = (Next \<lparr>questions = [], answers = []\<rparr>, [])"
proof -
  have "resolveUser exampleModule (registryOf [(''weird:users:john.doe'', ''pk123'')])
          [''192.0.2.1''] \<lparr>qname = ''john.doe.users.example.com'', qtype = A\<rparr>
      = ([None], [])"
    using a_resolveUser [where host = "''users.example.com''" and U = "''john.doe''"]
    by (simp add: exampleModule_def)
  moreover have "resolveUser exampleModule (registryOf [(''weird:users:'', ''pk123'')])
          [''192.0.2.1''] \<lparr>qname = ''.users.example.com'', qtype = A\<rparr>
      = ([None], [])"
    using a_resolveUser [where host = "''users.example.com''" and U = "[]"]
    by (simp add: exampleModule_def)
  ultimately show ?thesis
    by (simp add: exampleModule_loaded registryStage_single settle_simps registryOf_def
          REDIS_USER_PREFIX_def)
qed

text \<open>
  C3. For every parent domain the module loads, and the pattern matcher extracts a username
  from exactly the names \<open>_weird.<username>.<parent>\<close> (TXT) and \<open><username>.<parent>\<close>
  (A), where the username is one label (it contains no dot) and the parent is the configured
  parent domain, character for character: a name with another label, another prefix or
  another suffix gives no match. The escaped parent domain is read as a sequence of literal
  characters, so a dot in it stands for a dot only.
\<close>

theorem pattern_matcher_exact:
  "\<exists>m. loadModule parent port = Some m
     \<and> (matchGroup1 nm (txtRegex m) = Some u
          \<longleftrightarrow> CHR ''.'' \<notin> set u \<and> nm = ''_weird.'' @ u @ ''.'' @ splitColon0 parent)
     \<and> (matchGroup1 nm (aRegex m) = Some u
          \<longleftrightarrow> CHR ''.'' \<notin> set u \<and> nm = u @ ''.'' @ splitColon0 parent)
     \<and> tokenize (escapeStringForEmbeddingInRegex (splitColon0 parent))
          = Some (map TChar (splitColon0 parent))"
proof -
  have "tokenize (escapeStringForEmbeddingInRegex (splitColon0 parent) @ [])
      = map_option ((@) (map TChar (splitColon0 parent))) (tokenize [])"
    by (rule tokenize_escape)
  then show ?thesis
    by (simp add: loadModule_ok txt_match_iff a_match_iff)
qed

theorem pattern_matcher_exact_witness:
  "loadModule ''users.example.com'' 53 = Some exampleModule
   \<and> matchGroup1 ''_weird.alice.users.example.com'' (txtRegex exampleModule) = Some ''alice''
   \<and> matchGroup1 ''_weird.alice.usersXexample.com'' (txtRegex exampleModule) = None
   \<and> matchGroup1 ''_weird.alice.sub.users.example.com'' (txtRegex exampleModule) = None
   \<and> matchGroup1 ''bob.users.example.com'' (aRegex exampleModule) = Some ''bob''
   \<and> matchGroup1 ''bob.other-domain'' (aRegex exampleModule) = None"
proof -
  have host: "splitColon0 ''users.example.com'' = ''users.example.com''"
    by (simp add: splitColon0_def)
  have exact:
    "(matchGroup1 nm (txtRegex exampleModule) = Some u
       \<longleftrightarrow> CHR ''.'' \<notin> set u \<and> nm = ''_weird.'' @ u @ ''.users.example.com'')
     \<and> (matchGroup1 nm (aRegex exampleModule) = Some u
       \<longleftrightarrow> CHR ''.'' \<notin> set u \<and> nm = u @ ''.users.example.com'')" for nm u
    using pattern_matcher_exact [of "''users.example.com''" 53 nm u]
    by (simp add: exampleModule_loaded host)
  have 1: "matchGroup1 ''_weird.alice.users.example.com'' (txtRegex exampleModule) = Some ''alice''"
    using exact [of "''_weird.alice.users.example.com''" "''alice''"] by simp
  have 2: "matchGroup1 ''_weird.alice.usersXexample.com'' (txtRegex exampleModule) = None"
  proof (cases "matchGroup1 ''_weird.alice.usersXexample.com'' (txtRegex exampleModule)")
    case None
    then show ?thesis .
  next
    case (Some u)
    then have "''_weird.alice.usersXexample.com'' = ''_weird.'' @ u @ ''.users.example.com''"
      using exact [of "''_weird.alice.usersXexample.com''" u] by simp
    then have "rev ''_weird.alice.usersXexample.com''
        = rev (''_weird.'' @ u @ ''.users.example.com'')"
      by (rule arg_cong)
    then show ?thesis by simp
  qed
  have 3: "matchGroup1 ''_weird.alice.sub.users.example.com'' (txtRegex exampleModule) = None"
  proof (cases "matchGroup1 ''_weird.alice.sub.users.example.com'' (txtRegex exampleModule)")
    case None
    then show ?thesis .
  next
    case (Some u)
    then have "CHR ''.'' \<notin> set u"
      and "''_weird.alice.sub.users.example.com'' = ''_weird.'' @ u @ ''.users.example.com''"
      using exact [of "''_weird.alice.sub.users.example.com''" u] by simp_all
    then show ?thesis by auto
  qed
  have 4: "matchGroup1 ''bob.users.example.com'' (aRegex exampleModule) = Some ''bob''"
    using exact [of "''bob.users.example.com''" "''bob''"] by simp
  have 5: "matchGroup1 ''bob.other-domain'' (aRegex exampleModule) = None"
  proof (cases "matchGroup1 ''bob.other-domain'' (aRegex exampleModule)")
    case None
    then show ?thesis .
  next
    case (Some u)
    then have "''bob.other-domain'' = u @ ''.users.example.com''"
      using exact [of "''bob.other-domain''" u] by simp
    then have "rev ''bob.other-domain'' = rev (u @ ''.users.example.com'')"
      by (rule arg_cong)
    then show ?thesis by simp
  qed
  show ?thesis
    using 1 2 3 4 5 by (simp add: exampleModule_loaded)
qed

text \<open>
  C4 (amended). When the response already contains at least one answer, both stages do no
  work for the questions (no registry lookup, no upstream call) and leave the response as it
  is. The dynamic-registry stage exits at once by calling the next stage; the forwarding
  stage, the last one registered, returns at once without calling a next stage.
\<close>

theorem answered_response_skips_both_stages:
  assumes "answers res \<noteq> []"
  shows "registryStage m redis ips req res = (Next res, [])
    \<and> forwardStage m resolve req res = (Return res, [])"
  using assms by (simp add: registryStage_def forwardStage_def)

theorem answered_response_skips_both_stages_witness:
  "answers \<lparr>questions = [], answers = [\<lparr>name = ''example.org'', type = A, data = Str ''192.0.2.1'',
                                           ttl = 300\<rparr>]\<rparr> \<noteq> []
   \<and> registryStage exampleModule (registryOf [(''weird:users:alice'', ''pk123'')]) [''192.0.2.1'']
       \<lparr>questions = [\<lparr>qname = ''_weird.alice.users.example.com'', qtype = TXT\<rparr>], answers = []\<rparr>
       \<lparr>questions = [], answers = [\<lparr>name = ''example.org'', type = A, data = Str ''192.0.2.1'',
                                      ttl = 300\<rparr>]\<rparr>
     = (Next \<lparr>questions = [], answers = [\<lparr>name = ''example.org'', type = A,
                                             data = Str ''192.0.2.1'', ttl = 300\<rparr>]\<rparr>,
        [])
   \<and> forwardStage exampleModule
       (upstreamOf [((''example.org'', A), [Str ''93.184.216.34''])])
       \<lparr>questions = [\<lparr>qname = ''example.org'', qtype = A\<rparr>], answers = []\<rparr>
       \<lparr>questions = [], answers = [\<lparr>name = ''example.org'', type = A, data = Str ''192.0.2.1'',
                                      ttl = 300\<rparr>]\<rparr>
     = (Return \<lparr>questions = [], answers = [\<lparr>name = ''example.org'', type = A,
                                               data = Str ''192.0.2.1'', ttl = 300\<rparr>]\<rparr>,
        [])"
proof -
  let ?res = "\<lparr>questions = [], answers = [\<lparr>name = ''example.org'', type = A,
                                               data = Str ''192.0.2.1'', ttl = 300\<rparr>]\<rparr>"
  have answered: "answers ?res \<noteq> []" by simp
  show ?thesis
    using answered_response_skips_both_stages
        [OF answered, where m = exampleModule
          and redis = "registryOf [(''weird:users:alice'', ''pk123'')]"
          and ips = "[''192.0.2.1'']"
          and req = "\<lparr>questions = [\<lparr>qname = ''_weird.alice.users.example.com'', qtype = TXT\<rparr>],
                       answers = []\<rparr>"]
      answered_response_skips_both_stages
        [OF answered, where m = exampleModule
          and resolve = "upstreamOf [((''example.org'', A), [Str ''93.184.216.34''])]"
          and req = "\<lparr>questions = [\<lparr>qname = ''example.org'', qtype = A\<rparr>], answers = []\<rparr>"]
    by simp
qed

theorem forward_stage_calls_next_counterexample:
  "forwardStage exampleModule
       (upstreamOf [((''example.org'', A), [Str ''93.184.216.34''])])
       \<lparr>questions = [\<lparr>qname = ''example.org'', qtype = A\<rparr>], answers = []\<rparr>
       \<lparr>questions = [], answers = [\<lparr>name = ''example.org'', type = A, data = Str ''192.0.2.1'',
                                      ttl = 300\<rparr>]\<rparr>
     = (Return \<lparr>questions = [], answers = [\<lparr>name = ''example.org'', type = A,
                                               data = Str ''192.0.2.1'', ttl = 300\<rparr>]\<rparr>,
        [])
   \<and> fst (forwardStage exampleModule
       (upstreamOf [((''example.org'', A), [Str ''93.184.216.34''])])
       \<lparr>questions = [\<lparr>qname = ''example.org'', qtype = A\<rparr>], answers = []\<rparr>
       \<lparr>questions = [], answers = [\<lparr>name = ''example.org'', type = A, data = Str ''192.0.2.1'',
                                      ttl = 300\<rparr>]\<rparr>)
     \<noteq> Next \<lparr>questions = [], answers = [\<lparr>name = ''example.org'', type = A,
                                             data = Str ''192.0.2.1'', ttl = 300\<rparr>]\<rparr>"
  by (simp add: forwardStage_def)

text \<open>
  C5. On a response that already has an answer the dynamic-registry stage does nothing: it
  makes no registry lookup, leaves the response as it is and calls the next stage; running
  it again on the result changes nothing either.
\<close>

theorem registry_stage_idempotent_when_answered:
  assumes "answers res \<noteq> []"
  shows "registryStage m redis ips req res = (Next res, [])
    \<and> registryStage m redis ips req (response (fst (registryStage m redis ips req res)))
        = (Next res, [])"
  using assms by (simp add: registryStage_def)

theorem registry_stage_idempotent_when_answered_witness:
  "answers \<lparr>questions = [\<lparr>qname = ''_weird.alice.users.example.com'', qtype = TXT\<rparr>],
            answers = [\<lparr>name = ''_weird.alice.users.example.com'', type = TXT,
                        data = Str ''static'', ttl = 60\<rparr>]\<rparr> \<noteq> []
   \<and> registryStage exampleModule (registryOf [(''weird:users:alice'', ''pk123'')]) [''127.0.0.1'']
         \<lparr>questions = [\<lparr>qname = ''_weird.alice.users.example.com'', qtype = TXT\<rparr>],
          answers = []\<rparr>
         \<lparr>questions = [\<lparr>qname = ''_weird.alice.users.example.com'', qtype = TXT\<rparr>],
          answers = [\<lparr>name = ''_weird.alice.users.example.com'', type = TXT,
                      data = Str ''static'', ttl = 60\<rparr>]\<rparr>
       = (Next \<lparr>questions = [\<lparr>qname = ''_weird.alice.users.example.com'', qtype = TXT\<rparr>],
                answers = [\<lparr>name = ''_weird.alice.users.example.com'', type = TXT,
                            data = Str ''static'', ttl = 60\<rparr>]\<rparr>,
          [])"
  using registry_stage_idempotent_when_answered
    [where res = "\<lparr>questions = [\<lparr>qname = ''_weird.alice.users.example.com'', qtype = TXT\<rparr>],
                   answers = [\<lparr>name = ''_weird.alice.users.example.com'', type = TXT,
                               data = Str ''static'', ttl = 60\<rparr>]\<rparr>"
      and m = exampleModule and redis = "registryOf [(''weird:users:alice'', ''pk123'')]"
      and ips = "[''127.0.0.1'']"
      and req = "\<lparr>questions = [\<lparr>qname = ''_weird.alice.users.example.com'', qtype = TXT\<rparr>],
                   answers = []\<rparr>"]
  by simp

text \<open>
  C6. When the registry operation of a question fails, the promise of that question is never
  resolved, so the stage never gets past \<^verbatim>\<open>await Promise.all\<close>: it neither answers nor
  calls the next stage.
\<close>

theorem registry_failure_leaves_stage_pending:
  "redis_get failingRedis (REDIS_USER_PREFIX @ ''alice'') = Inl RedisError
   \<and> loadModule ''users.example.com'' 53 = Some exampleModule
   \<and> registryStage exampleModule failingRedis [''192.0.2.1'']
       \<lparr>questions = [\<lparr>qname = ''_weird.alice.users.example.com'', qtype = TXT\<rparr>,
                     \<lparr>qname = ''example.org'', qtype = NS\<rparr>], answers = []\<rparr>
       \<lparr>questions = [], answers = []\<rparr>
     = (Hang \<lparr>questions = [], answers = []\<rparr>, [Get ''weird:users:alice''])"
proof -
  have "resolveUser exampleModule failingRedis [''192.0.2.1'']
          \<lparr>qname = ''_weird.alice.users.example.com'', qtype = TXT\<rparr>
      = ([], [Get ''weird:users:alice''])"
    using txt_resolveUser [where host = "''users.example.com''" and U = "''alice''"
        and redis = failingRedis]
    by (simp add: exampleModule_def failingRedis_def REDIS_USER_PREFIX_def)
  moreover have "resolveUser exampleModule failingRedis [''192.0.2.1'']
          \<lparr>qname = ''example.org'', qtype = NS\<rparr> = ([None], [])"
    by (simp add: resolveUser_def)
  ultimately show ?thesis
    by (simp add: exampleModule_loaded registryStage_def settle_simps failingRedis_def)
qed

text \<open>
  C7. Neither stage removes or reorders an answer that is already in the response: whatever
  the stage does (call the next stage, return, or never finish), the answers of the response
  before the stage are a prefix of its answers afterwards. A response that has an answer is
  left as it is; only a response without answers is given to \<^verbatim>\<open>res.answer\<close>.
\<close>

theorem stages_preserve_committed_answers:
  "prefix (answers res) (answers (response (fst (registryStage m redis ips req res))))
   \<and> prefix (answers res) (answers (response (fst (forwardStage m resolve req res))))
   \<and> (answers res \<noteq> []
        \<longrightarrow> response (fst (registryStage m redis ips req res)) = res
          \<and> response (fst (forwardStage m resolve req res)) = res)"
  by (simp add: registryStage_def forwardStage_def answer_def Let_def
        split: promise.splits)

theorem stages_preserve_committed_answers_witness:
  "answers \<lparr>questions = [], answers = [\<lparr>name = ''users.example.com'', type = A,
                                           data = Str ''192.0.2.1'', ttl = 300\<rparr>]\<rparr> \<noteq> []
   \<and> response (fst (registryStage exampleModule (registryOf [(''weird:users:bob'', ''pk456'')])
         [''192.0.2.1'']
         \<lparr>questions = [\<lparr>qname = ''bob.users.example.com'', qtype = A\<rparr>], answers = []\<rparr>
         \<lparr>questions = [], answers = [\<lparr>name = ''users.example.com'', type = A,
                                        data = Str ''192.0.2.1'', ttl = 300\<rparr>]\<rparr>))
       = \<lparr>questions = [], answers = [\<lparr>name = ''users.example.com'', type = A,
                                        data = Str ''192.0.2.1'', ttl = 300\<rparr>]\<rparr>
   \<and> response (fst (forwardStage exampleModule (upstreamOf [])
         \<lparr>questions = [\<lparr>qname = ''bob.users.example.com'', qtype = A\<rparr>], answers = []\<rparr>
         \<lparr>questions = [], answers = [\<lparr>name = ''users.example.com'', type = A,
                                        data = Str ''192.0.2.1'', ttl = 300\<rparr>]\<rparr>))
       = \<lparr>questions = [], answers = [\<lparr>name = ''users.example.com'', type = A,
                                        data = Str ''192.0.2.1'', ttl = 300\<rparr>]\<rparr>"
  using stages_preserve_committed_answers
    [where res = "\<lparr>questions = [], answers = [\<lparr>name = ''users.example.com'', type = A,
                                                  data = Str ''192.0.2.1'', ttl = 300\<rparr>]\<rparr>"
      and m = exampleModule and redis = "registryOf [(''weird:users:bob'', ''pk456'')]"
      and ips = "[''192.0.2.1'']" and resolve = "upstreamOf []"
      and req = "\<lparr>questions = [\<lparr>qname = ''bob.users.example.com'', qtype = A\<rparr>],
                   answers = []\<rparr>"]
  by simp

text \<open>
  C8. In development mode, an NS question that reaches the forwarding stage (the response
  has no answer yet) gets exactly one answer, whose data is the address of this process,
  \<open>127.0.0.1:\<close> followed by the configured DNS port in decimal, with ttl 300: in any
  request, the stage puts that answer between the answers of the questions before the NS
  question and those of the questions after it, and makes no upstream call for it. The
  stage does not read the registry. The port is printed as the decimal numeral of
  \<open>DNS_PORT\<close>: digits only, denoting that number, and without a leading zero.
\<close>

theorem dev_forwarder_answers_ns_locally:
  assumes "answers res = []" and "qtype q = NS"
  shows "forwardStage m resolve (req\<lparr>questions := pre @ q # post\<rparr>) res
     = (Next (res\<lparr>answers :=
                answers (response (fst (forwardStage m resolve (req\<lparr>questions := pre\<rparr>) res)))
                @ [\<lparr>name = qname q, type = NS,
                     data = Str (''127.0.0.1:'' @ showNat (DNS_PORT m)), ttl = 300\<rparr>]
                @ answers (response (fst (forwardStage m resolve (req\<lparr>questions := post\<rparr>) res)))\<rparr>),
        snd (forwardStage m resolve (req\<lparr>questions := pre\<rparr>) res)
        @ snd (forwardStage m resolve (req\<lparr>questions := post\<rparr>) res))
    \<and> decimalValue (showNat (DNS_PORT m)) = DNS_PORT m
    \<and> showNat (DNS_PORT m) \<noteq> []
    \<and> set (showNat (DNS_PORT m)) \<subseteq> set ''0123456789''
    \<and> (0 < DNS_PORT m \<longrightarrow> hd (showNat (DNS_PORT m)) \<noteq> CHR ''0'')
    \<and> (DNS_PORT m = 0 \<longrightarrow> showNat (DNS_PORT m) = ''0'')"
proof -
  have zero: "showNat 0 = ''0''"
    by (simp add: showNat.simps [of 0] digit_def)
  have "forwardStage m resolve (req\<lparr>questions := pre @ q # post\<rparr>) res
     = (Next (res\<lparr>answers :=
                answers (response (fst (forwardStage m resolve (req\<lparr>questions := pre\<rparr>) res)))
                @ [\<lparr>name = qname q, type = NS,
                     data = Str (''127.0.0.1:'' @ showNat (DNS_PORT m)), ttl = 300\<rparr>]
                @ answers (response (fst (forwardStage m resolve (req\<lparr>questions := post\<rparr>) res)))\<rparr>),
        snd (forwardStage m resolve (req\<lparr>questions := pre\<rparr>) res)
        @ snd (forwardStage m resolve (req\<lparr>questions := post\<rparr>) res))"
    using assms(2)
    by (simp add: forwardStage_around [OF assms(1)] forwardQuestion_def flatAnswers_simps
          localServer_def)
  then show ?thesis
    using decimalValue_showNat [of "DNS_PORT m"] showNat_nonempty [of "DNS_PORT m"]
      showNat_digits [of "DNS_PORT m"] showNat_no_leading_zero [of "DNS_PORT m"] zero
    by simp
qed

theorem dev_forwarder_answers_ns_locally_witness:
  "answers \<lparr>questions = [], answers = []\<rparr> = []
   \<and> qtype \<lparr>qname = ''example.org'', qtype = NS\<rparr> = NS
   \<and> 0 < DNS_PORT (exampleModule\<lparr>DNS_PORT := 8053\<rparr>)
   \<and> forwardStage exampleModule (upstreamOf [])
         \<lparr>questions = [\<lparr>qname = ''example.org'', qtype = NS\<rparr>], answers = []\<rparr>
         \<lparr>questions = [], answers = []\<rparr>
       = (Next \<lparr>questions = [],
                answers = [\<lparr>name = ''example.org'', type = NS, data = Str ''127.0.0.1:53'',
                            ttl = 300\<rparr>]\<rparr>,
          [])
   \<and> forwardStage (exampleModule\<lparr>DNS_PORT := 8053\<rparr>) (upstreamOf [])
         \<lparr>questions = [\<lparr>qname = ''example.org'', qtype = NS\<rparr>], answers = []\<rparr>
         \<lparr>questions = [], answers = []\<rparr>
       = (Next \<lparr>questions = [],
                answers = [\<lparr>name = ''example.org'', type = NS, data = Str ''127.0.0.1:8053'',
                            ttl = 300\<rparr>]\<rparr>,
          [])
   \<and> decimalValue ''8053'' = 8053
   \<and> hd ''8053'' \<noteq> CHR ''0''"
proof -
  let ?q = "\<lparr>qname = ''example.org'', qtype = NS\<rparr>"
  let ?res = "\<lparr>questions = [], answers = []\<rparr>"
  have none: "forwardStage m (upstreamOf []) \<lparr>questions = [], answers = []\<rparr> ?res
      = (Next ?res, [])" for m
    by (simp add: forwardStage_def flatAnswers_simps answer_def)
  have port: "showNat (DNS_PORT exampleModule) = ''53''"
    by (simp add: exampleModule_def digit_def showNat.simps)
  have port': "showNat 8053 = ''8053''"
    by (simp add: digit_def showNat.simps)
  show ?thesis
    using dev_forwarder_answers_ns_locally
        [where res = ?res and q = ?q and m = exampleModule and resolve = "upstreamOf []"
          and req = ?res and pre = "[]" and post = "[]"]
      dev_forwarder_answers_ns_locally
        [where res = ?res and q = ?q and m = "exampleModule\<lparr>DNS_PORT := 8053\<rparr>"
          and resolve = "upstreamOf []" and req = ?res and pre = "[]" and post = "[]"]
    by (simp add: none port port')
qed

text \<open>
  C9. In the forwarding stage, a TXT or A question is handed to the upstream resolver. When
  the resolver returns records, each of them becomes an answer with the name and type of
  the question and ttl 300; when it fails, the question contributes no answer. In both
  cases the stage goes on to the next one, and the answers and upstream calls of the other
  questions of the request are what they are without this question.
\<close>

theorem forwarder_wraps_records_and_swallows_errors:
  assumes "answers res = []" and "qtype q = TXT \<or> qtype q = A"
  shows "forwardStage m resolve (req\<lparr>questions := pre @ q # post\<rparr>) res
     = (Next (res\<lparr>answers :=
                answers (response (fst (forwardStage m resolve (req\<lparr>questions := pre\<rparr>) res)))
                @ (case resolve (qname q) (qtype q) of
                     Inr recs \<Rightarrow>
                       map (\<lambda>r. \<lparr>name = qname q, type = qtype q, data = r, ttl = 300\<rparr>) recs
                   | Inl err \<Rightarrow> [])
                @ answers (response (fst (forwardStage m resolve (req\<lparr>questions := post\<rparr>) res)))\<rparr>),
        snd (forwardStage m resolve (req\<lparr>questions := pre\<rparr>) res)
        @ [(qname q, qtype q)]
        @ snd (forwardStage m resolve (req\<lparr>questions := post\<rparr>) res))"
  using assms(2)
  by (auto simp: forwardStage_around [OF assms(1)] forwardQuestion_def resolveUpstream_def
        flatAnswers_simps split: sum.splits)

theorem forwarder_wraps_records_and_swallows_errors_witness:
  "answers \<lparr>questions = [], answers = []\<rparr> = []
   \<and> (qtype \<lparr>qname = ''down.example.org'', qtype = TXT\<rparr> = TXT
        \<or> qtype \<lparr>qname = ''down.example.org'', qtype = TXT\<rparr> = A)
   \<and> forwardStage exampleModule
         (upstreamOf [((''example.org'', A), [Str ''93.184.216.34'', Str ''93.184.216.35''])])
         \<lparr>questions = [\<lparr>qname = ''down.example.org'', qtype = TXT\<rparr>,
                       \<lparr>qname = ''example.org'', qtype = A\<rparr>], answers = []\<rparr>
         \<lparr>questions = [], answers = []\<rparr>
       = (Next \<lparr>questions = [],
                answers = [\<lparr>name = ''example.org'', type = A, data = Str ''93.184.216.34'',
                            ttl = 300\<rparr>,
                           \<lparr>name = ''example.org'', type = A, data = Str ''93.184.216.35'',
                            ttl = 300\<rparr>]\<rparr>,
          [(''down.example.org'', TXT), (''example.org'', A)])"
proof -
  let ?up = "upstreamOf [((''example.org'', A), [Str ''93.184.216.34'', Str ''93.184.216.35''])]"
  let ?q1 = "\<lparr>qname = ''down.example.org'', qtype = TXT\<rparr>"
  let ?q2 = "\<lparr>qname = ''example.org'', qtype = A\<rparr>"
  let ?res = "\<lparr>questions = [], answers = []\<rparr>"
  have none: "forwardStage exampleModule ?up \<lparr>questions = [], answers = []\<rparr> ?res
      = (Next ?res, [])"
    by (simp add: forwardStage_def flatAnswers_simps answer_def)
  have two: "forwardStage exampleModule ?up \<lparr>questions = [?q2], answers = []\<rparr> ?res
      = (Next \<lparr>questions = [],
                answers = [\<lparr>name = ''example.org'', type = A, data = Str ''93.184.216.34'',
                            ttl = 300\<rparr>,
                           \<lparr>name = ''example.org'', type = A, data = Str ''93.184.216.35'',
                            ttl = 300\<rparr>]\<rparr>,
         [(''example.org'', A)])"
    using forwarder_wraps_records_and_swallows_errors
      [where res = ?res and q = ?q2 and m = exampleModule and resolve = ?up
        and req = ?res and pre = "[]" and post = "[]"]
    by (simp add: none upstreamOf_def)
  show ?thesis
    using forwarder_wraps_records_and_swallows_errors
      [where res = ?res and q = ?q1 and m = exampleModule and resolve = ?up
        and req = ?res and pre = "[]" and post = "[?q2]"]
    by (simp add: none two upstreamOf_def)
qed

text \<open>
  C10. A name whose username label is empty, \<open>_weird..<parent>\<close> for TXT or \<open>.<parent>\<close>
  for A, matches its pattern with the empty string as the username, and the stage then
  treats the question as a non-match: whatever the registry and the other questions, it makes
  no lookup and produces no answer for it, so that the stage does on the request what it
  does on the request without that question.
\<close>

theorem empty_username_is_no_match:
  assumes "loadModule parent port = Some m"
  shows "matchGroup1 (''_weird..'' @ splitColon0 parent) (txtRegex m) = Some []
    \<and> matchGroup1 (''.'' @ splitColon0 parent) (aRegex m) = Some []
    \<and> resolveUser m redis ips \<lparr>qname = ''_weird..'' @ splitColon0 parent, qtype = TXT\<rparr>
        = ([None], [])
    \<and> resolveUser m redis ips \<lparr>qname = ''.'' @ splitColon0 parent, qtype = A\<rparr> = ([None], [])
    \<and> registryStage m redis ips
          (req\<lparr>questions :=
             pre @ \<lparr>qname = ''_weird..'' @ splitColon0 parent, qtype = TXT\<rparr> # post\<rparr>) res
        = registryStage m redis ips (req\<lparr>questions := pre @ post\<rparr>) res
    \<and> registryStage m redis ips
          (req\<lparr>questions := pre @ \<lparr>qname = ''.'' @ splitColon0 parent, qtype = A\<rparr> # post\<rparr>) res
        = registryStage m redis ips (req\<lparr>questions := pre @ post\<rparr>) res"
proof -
  let ?host = "splitColon0 parent"
  have m: "m = \<lparr>txtRegex = txtAst ?host, aRegex = aAst ?host, DNS_PORT = port\<rparr>"
    using assms by (simp add: loadModule_ok)
  have t: "matchGroup1 (''_weird..'' @ ?host) (txtRegex m) = Some []"
    unfolding m by (simp add: txt_match_iff)
  have a: "matchGroup1 (''.'' @ ?host) (aRegex m) = Some []"
    unfolding m by (simp add: a_match_iff)
  have rt: "resolveUser m redis ips \<lparr>qname = ''_weird..'' @ ?host, qtype = TXT\<rparr> = ([None], [])"
    using t by (simp add: resolveUser_def)
  have ra: "resolveUser m redis ips \<lparr>qname = ''.'' @ ?host, qtype = A\<rparr> = ([None], [])"
    using a by (simp add: resolveUser_def)
  show ?thesis
    using t a rt ra registryStage_skip_silent [OF rt] registryStage_skip_silent [OF ra]
    by simp
qed

theorem empty_username_is_no_match_witness:
  "loadModule ''users.example.com'' 53 = Some exampleModule
   \<and> matchGroup1 ''_weird..users.example.com'' (txtRegex exampleModule) = Some []
   \<and> matchGroup1 ''.users.example.com'' (aRegex exampleModule) = Some []
   \<and> registryStage exampleModule (registryOf [(''weird:users:'', ''pk123'')]) [''127.0.0.1'']
         \<lparr>questions = [\<lparr>qname = ''_weird..users.example.com'', qtype = TXT\<rparr>], answers = []\<rparr>
         \<lparr>questions = [], answers = []\<rparr>
       = (Next \<lparr>questions = [], answers = []\<rparr>, [])
   \<and> registryStage exampleModule (registryOf [(''weird:users:'', ''pk123'')]) [''127.0.0.1'']
         \<lparr>questions = [\<lparr>qname = ''.users.example.com'', qtype = A\<rparr>], answers = []\<rparr>
         \<lparr>questions = [], answers = []\<rparr>
       = (Next \<lparr>questions = [], answers = []\<rparr>, [])"
proof -
  have host: "splitColon0 ''users.example.com'' = ''users.example.com''"
    by (simp add: splitColon0_def)
  show ?thesis
    using empty_username_is_no_match
      [OF exampleModule_loaded,
        where res = "\<lparr>questions = [], answers = []\<rparr>"
        and redis = "registryOf [(''weird:users:'', ''pk123'')]"
        and ips = "[''127.0.0.1'']" and req = "\<lparr>questions = [], answers = []\<rparr>"
        and pre = "[]" and post = "[]"]
    by (simp add: exampleModule_loaded host registryStage_Nil)
qed

end
